theory Spec2Isabelle
  imports Complex_Main "HOL-Library.Log_Nat"
begin

section \<open>Zone occupancy tracking of \<open>ProfessionalHallwayMonitor\<close>\<close>

text \<open>
  A shallow embedding of the statistics, runtime and FPS state of the class
  \<open>ProfessionalHallwayMonitor\<close> (\<open>src/crowd_counting_rpi.py\<close>) and of its methods
  \<open>__init__\<close>, \<open>reset_stats\<close> and \<open>process_frame\<close>.

  What is outside the embedding and how it enters:
  \<^item> the YOLO tracker (\<open>self.model.track\<close>) is an input: whether the call raised, and
    otherwise \<open>None\<close> when \<open>results[0].boxes.id is None\<close> or the list of (box, track id)
    pairs that \<open>zip(boxes, track_ids)\<close> iterates over, in order;
  \<^item> the wall clock is an input: the three values that the three calls of
    \<open>datetime.now()\<close> inside one \<open>process_frame\<close> return, in microseconds;
  \<^item> drawing (\<open>draw_counting_zone\<close>, \<open>draw_detections\<close>, \<open>create_dashboard\<close>,
    \<open>cv2.putText\<close>) writes pixels and assigns no attribute, but a call into \<open>cv2\<close> can
    raise: whether each of these calls raised is an input too, and \<open>draw_counting_zone\<close>
    raises in any case when a coordinate it passes to \<open>cv2\<close> does not fit a C \<open>int\<close>;
  \<^item> the attributes \<open>model\<close>, \<open>confidence\<close>, \<open>video_writer\<close>, \<open>colors\<close>, \<open>line_points\<close>
    and \<open>setup_complete\<close>, which the three methods never assign, are left out;
  \<^item> \<open>frame\<close> is an image array, as both callers make sure before the call, so that
    \<open>frame.shape\<close> in the first line returns;
  \<^item> box coordinates are finite \<open>numpy.float32\<close> values, here the reals they denote; the
    sums \<open>x1 + x2\<close> and \<open>y1 + y2\<close> are rounded as \<open>float32\<close> addition rounds them, and
    overflow to infinity makes \<open>int\<close> raise. NaN and infinite coordinates are not
    represented.
\<close>

subsection \<open>Values\<close>

text \<open>
  The exceptions of the model: the four that the statements of \<open>process_frame\<close> itself
  raise, \<open>Cv2Error\<close> for a coordinate that \<open>cv2\<close> refuses, and \<open>ExternalError\<close> for a raise
  inside a call that leaves the class.
\<close>

datatype py_error =
  IndexError | ValueError | ZeroDivisionError | OverflowError | Cv2Error | ExternalError

type_synonym box = "real \<times> real \<times> real \<times> real"
type_synonym track_id = int
type_synonym detection = "box \<times> track_id"
type_synonym bounds = "int \<times> int \<times> int \<times> int"

text \<open>Python's \<open>int(x)\<close> on a float: truncation towards zero.\<close>

definition py_int :: "real \<Rightarrow> int" where
  "py_int x = (if 0 \<le> x then \<lfloor>x\<rfloor> else \<lceil>x\<rceil>)"

text \<open>
  \<open>numpy.float32\<close> addition: the exact sum, rounded to the nearest value with a 24 bit
  significand and an exponent of at least \<open>-149\<close> for its last bit, ties to the even
  significand; \<open>None\<close> stands for an infinity, which is the result when the rounded
  magnitude reaches \<open>2 ^ 128\<close>. \<open>f32_exponent x\<close> is the integer part of the binary
  logarithm of \<open>\<bar>x\<bar>\<close>, computed on integers.
\<close>

definition round_half_even :: "real \<Rightarrow> int" where
  "round_half_even x =
     (let f = \<lfloor>x\<rfloor>; r = x - of_int f
      in if r < 1 / 2 then f else if 1 / 2 < r then f + 1 else if even f then f else f + 1)"

definition f32_exponent :: "real \<Rightarrow> int" where
  "f32_exponent x =
     (if 1 \<le> \<bar>x\<bar> then bitlen \<lfloor>\<bar>x\<bar>\<rfloor> - 1 else - bitlen (\<lceil>1 / \<bar>x\<bar>\<rceil> - 1))"

definition pow2 :: "int \<Rightarrow> real" where
  "pow2 k = (if 0 \<le> k then 2 ^ nat k else 1 / 2 ^ nat (- k))"

definition f32_round :: "real \<Rightarrow> real option" where
  "f32_round x =
     (if x = 0 then Some 0
      else
        let q = pow2 (max (f32_exponent x - 23) (- 149));
            r = of_int (round_half_even (\<bar>x\<bar> / q)) * q
        in if 2 ^ 128 \<le> r then None else Some (sgn x * r))"

definition f32_add :: "real \<Rightarrow> real \<Rightarrow> real option" where
  "f32_add x y = f32_round (x + y)"

text \<open>
  \<open>collections.deque(maxlen=n).append(x)\<close>: the element is added on the right and,
  when the length then exceeds \<open>maxlen\<close>, one element is dropped on the left.
\<close>

definition deque_append :: "nat \<Rightarrow> 'a list \<Rightarrow> 'a \<Rightarrow> 'a list" where
  "deque_append maxlen d x =
     (let d' = d @ [x] in if maxlen < length d' then tl d' else d')"

definition history_length :: nat where
  "history_length = 100"

text \<open>
  Whether the calls that leave this class raised during one \<open>process_frame\<close>, in the order
  of the source: \<open>draw_counting_zone\<close> (line 169), \<open>self.model.track\<close> with the reads of
  its result (lines 173 to 184), \<open>draw_detections\<close> (line 220), \<open>create_dashboard\<close>
  (line 230) and the alert's \<open>cv2.putText\<close> (line 236). A call that is not reached has
  no outcome, and its field is not read.
\<close>

record externals =
  draw_counting_zone_raises :: bool
  track_raises :: bool
  draw_detections_raises :: bool
  create_dashboard_raises :: bool
  putText_raises :: bool

subsection \<open>The monitor object\<close>

record monitor =
  occupancy_history :: "int list"
  in_history :: "int list"
  out_history :: "int list"
  in_zone_count :: int
  out_zone_count :: int
  current_zone_occupancy :: int
  alerts_count :: int
  frame_count :: int
  tracked_objects :: "track_id \<rightharpoonup> bool"
  fps_start_time :: int
  fps_frame_count :: int
  current_fps :: real

text \<open>\<open>__init__\<close>; \<open>now\<close> is what \<open>datetime.now()\<close> returns there.\<close>

definition init :: "int \<Rightarrow> monitor" where
  "init now =
     \<lparr> occupancy_history = [], in_history = [], out_history = [],
       in_zone_count = 0, out_zone_count = 0, current_zone_occupancy = 0,
       alerts_count = 0, frame_count = 0, tracked_objects = Map.empty,
       fps_start_time = now, fps_frame_count = 0, current_fps = 0 \<rparr>"

definition reset_stats :: "monitor \<Rightarrow> monitor" where
  "reset_stats self =
     self\<lparr> in_zone_count := 0, out_zone_count := 0, current_zone_occupancy := 0,
           alerts_count := 0, frame_count := 0, tracked_objects := Map.empty,
           occupancy_history := [], in_history := [], out_history := [] \<rparr>"

subsection \<open>\<open>process_frame\<close>\<close>

text \<open>
  The frame and FPS counters (source lines 149 to 156). The elapsed time is
  \<open>total_seconds()\<close>, a float: the test against \<open>1.0\<close> is a test against
  1000000 microseconds, and the float division raises on a zero divisor. A raise
  leaves the object as the statements before it made it, so an error carries that object.
\<close>

definition fps_update :: "monitor \<Rightarrow> int \<times> int \<times> int \<Rightarrow> (py_error \<times> monitor) + monitor" where
  "fps_update self nows =
     (case nows of (now1, now2, now3) \<Rightarrow>
        let self1 = self\<lparr>frame_count := frame_count self + 1\<rparr>;
            self2 = self1\<lparr>fps_frame_count := fps_frame_count self1 + 1\<rparr>
        in if 1000000 \<le> now1 - fps_start_time self2 then
             if now2 - fps_start_time self2 = 0 then Inl (ZeroDivisionError, self2)
             else
               let self3 = self2\<lparr>current_fps :=
                     real_of_int (fps_frame_count self2)
                       / (real_of_int (now2 - fps_start_time self2) / 1000000)\<rparr>;
                   self4 = self3\<lparr>fps_frame_count := 0\<rparr>
               in Inr (self4\<lparr>fps_start_time := now3\<rparr>)
           else Inr self2)"

text \<open>
  \<open>zone_x1, zone_y1 = line_points[0]\<close> and \<open>zone_x2, zone_y2 = line_points[1]\<close>:
  indexing raises IndexError past the end, unpacking raises ValueError unless the point
  has exactly two coordinates. Then the corners are put in order (lines 159 to 166).
\<close>

fun unpack2 :: "int list \<Rightarrow> py_error + int \<times> int" where
  "unpack2 [a, b] = Inr (a, b)"
| "unpack2 _ = Inl ValueError"

definition getitem :: "'a list \<Rightarrow> nat \<Rightarrow> py_error + 'a" where
  "getitem xs i = (if i < length xs then Inr (xs ! i) else Inl IndexError)"

definition zone_bounds :: "int \<times> int \<Rightarrow> int \<times> int \<Rightarrow> bounds" where
  "zone_bounds p1 p2 =
     (case p1 of (zone_x1, zone_y1) \<Rightarrow> case p2 of (zone_x2, zone_y2) \<Rightarrow>
        (min zone_x1 zone_x2, min zone_y1 zone_y2, max zone_x1 zone_x2, max zone_y1 zone_y2))"

definition zone_from_points :: "int list list \<Rightarrow> py_error + bounds" where
  "zone_from_points pts =
     (case getitem pts 0 of Inl e \<Rightarrow> Inl e | Inr l0 \<Rightarrow>
      case unpack2 l0 of Inl e \<Rightarrow> Inl e | Inr p1 \<Rightarrow>
      case getitem pts 1 of Inl e \<Rightarrow> Inl e | Inr l1 \<Rightarrow>
      case unpack2 l1 of Inl e \<Rightarrow> Inl e | Inr p2 \<Rightarrow>
        Inr (zone_bounds p1 p2))"

text \<open>
  \<open>draw_counting_zone(frame, (min_x, min_y), (max_x, max_y), ...)\<close> (lines 376 to 393)
  passes the two corners to \<open>cv2.rectangle\<close> and the point \<open>(tl[0], max_y + 15)\<close> to
  \<open>cv2.putText\<close>. A coordinate that does not fit a C \<open>int\<close> makes the binding raise; any
  other raise is the environment's.
\<close>

definition fits_int32 :: "int \<Rightarrow> bool" where
  "fits_int32 n = (- 2147483648 \<le> n \<and> n \<le> 2147483647)"

definition draw_counting_zone :: "externals \<Rightarrow> bounds \<Rightarrow> py_error option" where
  "draw_counting_zone ext z =
     (case z of (min_x, min_y, max_x, max_y) \<Rightarrow>
        if \<not> (fits_int32 min_x \<and> fits_int32 min_y \<and> fits_int32 max_x \<and> fits_int32 max_y)
        then Some Cv2Error
        else if \<not> fits_int32 (max_y + 15) then Some Cv2Error
        else if draw_counting_zone_raises ext then Some ExternalError
        else None)"

text \<open>
  Lines 190 to 196: \<open>cx = int((x1 + x2) / 2)\<close>, \<open>cy = int((y1 + y2) / 2)\<close>,
  \<open>feet_y = int(y2)\<close>, \<open>feet_x = int(cx)\<close>; the anchor is \<open>(feet_x, feet_y)\<close>. The sums
  are \<open>float32\<close> sums. Halving a \<open>float32\<close> is exact unless the result is below
  \<open>2 ^ - 126\<close>, where \<open>int\<close> gives 0 for the exact and for the rounded half alike, so the
  halves are exact here. \<open>int\<close> of an infinity raises OverflowError; \<open>int\<close> of an \<open>int\<close>
  is the identity. \<open>cy\<close> is computed and never used, but its \<open>int\<close> can raise.
\<close>

definition feet :: "box \<Rightarrow> py_error + int \<times> int" where
  "feet b =
     (case b of (x1, y1, x2, y2) \<Rightarrow>
        (case f32_add x1 x2 of
           None \<Rightarrow> Inl OverflowError
         | Some sx \<Rightarrow>
             (case f32_add y1 y2 of
                None \<Rightarrow> Inl OverflowError
              | Some sy \<Rightarrow>
                  let cx = py_int (sx / 2);
                      cy = py_int (sy / 2);
                      feet_y = py_int y2;
                      feet_x = cx
                  in Inr (feet_x, feet_y))))"

text \<open>
  Line 199. The test is reached only when the anchor was computed; for a box whose anchor
  computation raises, \<open>is_inside\<close> has no value in the source and is \<open>False\<close> here.
\<close>

definition is_inside :: "bounds \<Rightarrow> box \<Rightarrow> bool" where
  "is_inside z b =
     (case z of (min_x, min_y, max_x, max_y) \<Rightarrow>
        (case feet b of
           Inl _ \<Rightarrow> False
         | Inr (feet_x, feet_y) \<Rightarrow>
             (min_x \<le> feet_x \<and> feet_x \<le> max_x) \<and> (min_y \<le> feet_y \<and> feet_y \<le> max_y)))"

text \<open>
  One iteration of the loop over \<open>zip(boxes, track_ids)\<close>, from the test of line 199 on
  (lines 199 to 216). The loop state is the set \<open>current_frame_occupants\<close> and the object.
\<close>

definition track_step :: "bounds \<Rightarrow> track_id set \<times> monitor \<Rightarrow> detection \<Rightarrow> track_id set \<times> monitor" where
  "track_step z st det =
     (case st of (current_frame_occupants, self) \<Rightarrow> case det of (b, track_id) \<Rightarrow>
        let inside = is_inside z b;
            occupants = (if inside then insert track_id current_frame_occupants
                         else current_frame_occupants)
        in case tracked_objects self track_id of
             None \<Rightarrow>
               (occupants, self\<lparr>tracked_objects := (tracked_objects self)(track_id \<mapsto> inside)\<rparr>)
           | Some was_inside \<Rightarrow>
               let self1 =
                     (if \<not> was_inside \<and> inside then self\<lparr>in_zone_count := in_zone_count self + 1\<rparr>
                      else if was_inside \<and> \<not> inside then self\<lparr>out_zone_count := out_zone_count self + 1\<rparr>
                      else self)
               in (occupants, self1\<lparr>tracked_objects := (tracked_objects self1)(track_id \<mapsto> inside)\<rparr>))"

text \<open>
  The loop (lines 186 to 216): each iteration computes the anchor first, and a raise there
  ends the call with the object as the iterations before it left it.
\<close>

fun track_loop ::
  "bounds \<Rightarrow> track_id set \<times> monitor \<Rightarrow> detection list
     \<Rightarrow> (py_error \<times> monitor) + track_id set \<times> monitor" where
  "track_loop z st [] = Inr st"
| "track_loop z st (det # dets) =
     (case feet (fst det) of
        Inl e \<Rightarrow> Inl (e, snd st)
      | Inr _ \<Rightarrow> track_loop z (track_step z st det) dets)"

text \<open>Lines 222 to 227: occupancy, its history and the alert tally.\<close>

definition update_statistics :: "track_id set \<Rightarrow> monitor \<Rightarrow> int \<Rightarrow> monitor" where
  "update_statistics current_frame_occupants self alert_threshold =
     (let self1 = self\<lparr>current_zone_occupancy := int (card current_frame_occupants)\<rparr>;
          self2 = self1\<lparr>occupancy_history :=
                    deque_append history_length (occupancy_history self1) (current_zone_occupancy self1)\<rparr>
      in if alert_threshold \<le> current_zone_occupancy self2
         then self2\<lparr>alerts_count := alerts_count self2 + 1\<rparr>
         else self2)"

text \<open>The detections a tracker result carries: none when \<open>boxes.id is None\<close>.\<close>

definition detections_of :: "detection list option \<Rightarrow> detection list" where
  "detections_of results = (case results of None \<Rightarrow> [] | Some dets \<Rightarrow> dets)"

text \<open>
  \<open>process_frame(self, frame, line_points, alert_threshold)\<close>. The source returns the
  drawn frame; what the callers read afterwards is the object, which is the result here.
  \<open>draw_detections\<close> is called when \<open>boxes_list\<close> is not empty, the alert's \<open>putText\<close> when
  the occupancy reaches the threshold.
\<close>

definition process_frame ::
  "monitor \<Rightarrow> int \<times> int \<times> int \<Rightarrow> externals \<Rightarrow> detection list option \<Rightarrow> int list list \<Rightarrow> int
     \<Rightarrow> (py_error \<times> monitor) + monitor" where
  "process_frame self nows ext results pts alert_threshold =
     (case fps_update self nows of Inl err \<Rightarrow> Inl err | Inr self1 \<Rightarrow>
      case zone_from_points pts of Inl e \<Rightarrow> Inl (e, self1) | Inr z \<Rightarrow>
      case draw_counting_zone ext z of Some e \<Rightarrow> Inl (e, self1) | None \<Rightarrow>
      if track_raises ext then Inl (ExternalError, self1)
      else
        case (case results of None \<Rightarrow> Inr ({}, self1)
              | Some dets \<Rightarrow> track_loop z ({}, self1) dets) of
          Inl err \<Rightarrow> Inl err
        | Inr (current_frame_occupants, self2) \<Rightarrow>
            if detections_of results \<noteq> [] \<and> draw_detections_raises ext
            then Inl (ExternalError, self2)
            else
              let self3 = update_statistics current_frame_occupants self2 alert_threshold
              in if create_dashboard_raises ext then Inl (ExternalError, self3)
                 else if alert_threshold \<le> current_zone_occupancy self3 \<and> putText_raises ext
                 then Inl (ExternalError, self3)
                 else Inr self3)"

subsection \<open>Sequences of calls\<close>

datatype event =
  ProcessFrame "int \<times> int \<times> int" externals "detection list option" "int list list" int
| ResetStats

text \<open>The object as a call leaves it, whether it returned or raised.\<close>

fun left_behind :: "(py_error \<times> monitor) + monitor \<Rightarrow> monitor" where
  "left_behind (Inr self) = self"
| "left_behind (Inl (e, self)) = self"

fun apply_event :: "monitor \<Rightarrow> event \<Rightarrow> monitor" where
  "apply_event self (ProcessFrame nows ext results pts alert_threshold) =
     left_behind (process_frame self nows ext results pts alert_threshold)"
| "apply_event self ResetStats = reset_stats self"

fun run :: "monitor \<Rightarrow> event list \<Rightarrow> monitor" where
  "run self [] = self"
| "run self (ev # evs) = run (apply_event self ev) evs"

text \<open>The objects after each event of a sequence, in order.\<close>

fun snapshots :: "monitor \<Rightarrow> event list \<Rightarrow> monitor list" where
  "snapshots self [] = []"
| "snapshots self (ev # evs) = apply_event self ev # snapshots (apply_event self ev) evs"

text \<open>Every event is a \<open>process_frame\<close> call that returns.\<close>

fun returns :: "monitor \<Rightarrow> event \<Rightarrow> bool" where
  "returns self (ProcessFrame nows ext results pts alert_threshold) =
     (case process_frame self nows ext results pts alert_threshold of Inr _ \<Rightarrow> True | Inl _ \<Rightarrow> False)"
| "returns self ResetStats = False"

fun frames_return :: "monitor \<Rightarrow> event list \<Rightarrow> bool" where
  "frames_return self [] = True"
| "frames_return self (ev # evs) = (returns self ev \<and> frames_return (apply_event self ev) evs)"

fun is_frame :: "event \<Rightarrow> bool" where
  "is_frame (ProcessFrame _ _ _ _ _) = True"
| "is_frame ResetStats = False"

subsection \<open>Concrete runs\<close>

text \<open>
  The zone of the spec's scenarios, and frames with boxes whose anchors are \<open>(50, 50)\<close>
  (outside), \<open>(200, 200)\<close>, \<open>(250, 250)\<close> and \<open>(110, 100)\<close> (inside). In these runs no
  external call raises.
\<close>

definition no_raise :: externals where
  "no_raise =
     \<lparr> draw_counting_zone_raises = False, track_raises = False, draw_detections_raises = False,
       create_dashboard_raises = False, putText_raises = False \<rparr>"

definition zone_A :: "int list list" where
  "zone_A = [[100, 100], [300, 300]]"

definition frame_1 :: event where
  "frame_1 = ProcessFrame (0, 0, 0) no_raise
     (Some [((40, 10, 60, 50), 1), ((190, 150, 210, 200), 2), ((240, 200, 260, 250), 4)])
     zone_A 10"

definition frame_2 :: event where
  "frame_2 = ProcessFrame (40000, 40000, 40000) no_raise
     (Some [((190, 150, 210, 200), 1), ((40, 10, 60, 50), 2), ((100, 60, 120, 100), 3),
            ((240, 200, 260, 250), 4)])
     zone_A 10"

definition crowd_frame :: event where
  "crowd_frame = ProcessFrame (0, 0, 0) no_raise
     (Some [((190, 150, 210, 200), 1), ((240, 200, 260, 250), 2)]) zone_A 2"

definition track_5_frame :: event where
  "track_5_frame = ProcessFrame (0, 0, 0) no_raise (Some [((190, 150, 210, 200), 5)]) zone_A 10"

definition empty_frame :: event where
  "empty_frame = ProcessFrame (0, 0, 0) no_raise None zone_A 10"

section \<open>Properties\<close>

subsection \<open>\<open>float32\<close> sums\<close>

text \<open>
  \<open>f32_exponent\<close> is the integer part of the binary logarithm, and a sum that is an
  integer of magnitude at most \<open>2 ^ 24\<close> is not rounded.
\<close>

lemma round_half_even_of_int: "round_half_even (of_int m) = m"
  by (simp add: round_half_even_def)

lemma pow2_powr: "pow2 k = 2 powr of_int k"
  by (simp add: pow2_def powr_real_of_int field_simps)

lemma two_powr_of_int: "0 \<le> k \<Longrightarrow> 2 powr real_of_int k = (2::real) ^ nat k"
  by (simp add: powr_real_of_int)

lemma f32_exponent_log:
  assumes "x \<noteq> 0"
  shows "f32_exponent x = \<lfloor>log 2 \<bar>x\<bar>\<rfloor>"
proof (cases "1 \<le> \<bar>x\<bar>")
  case True
  let ?n = "\<lfloor>\<bar>x\<bar>\<rfloor>"
  have n: "1 \<le> ?n" using True by linarith
  let ?k = "\<lfloor>log 2 (of_int ?n)\<rfloor>"
  have "(2::real) powr of_int ?k \<le> of_int ?n \<and> real_of_int ?n < 2 powr (of_int ?k + 1)"
    using floor_log_eq_powr_iff [of "of_int ?n" 2 ?k] n by simp
  then have lo: "(2::real) powr of_int ?k \<le> of_int ?n"
    and hi: "real_of_int ?n < 2 powr of_int (?k + 1)"
    by simp_all
  have "0 \<le> log 2 (real_of_int ?n)"
    using n by simp
  then have k0: "0 \<le> ?k + 1"
    by simp
  have "real_of_int ?n < (2::real) ^ nat (?k + 1)"
    using hi two_powr_of_int [OF k0] by (simp only:)
  then have "?n < 2 ^ nat (?k + 1)"
    by simp
  then have "?n + 1 \<le> 2 ^ nat (?k + 1)" by simp
  then have "real_of_int (?n + 1) \<le> (2::real) ^ nat (?k + 1)"
    by (simp del: of_int_add)
  then have "real_of_int (?n + 1) \<le> 2 powr real_of_int (?k + 1)"
    using two_powr_of_int [OF k0] by (simp only:)
  moreover have "\<bar>x\<bar> < real_of_int (?n + 1)"
    by linarith
  ultimately have "\<bar>x\<bar> < 2 powr (of_int ?k + 1)"
    by (simp add: add.commute)
  moreover have "2 powr of_int ?k \<le> \<bar>x\<bar>"
    using lo by linarith
  ultimately have "\<lfloor>log 2 \<bar>x\<bar>\<rfloor> = ?k"
    using floor_log_eq_powr_iff [of "\<bar>x\<bar>" 2 ?k] assms by simp
  moreover have "f32_exponent x = ?k"
    using True n by (simp add: f32_exponent_def bitlen_alt_def)
  ultimately show ?thesis by simp
next
  case False
  let ?y = "1 / \<bar>x\<bar>"
  let ?m = "\<lceil>?y\<rceil>"
  have y: "1 < ?y" using False assms by simp
  then have m: "2 \<le> ?m" by linarith
  let ?k = "\<lfloor>log 2 (of_int (?m - 1))\<rfloor>"
  have "(2::real) powr of_int ?k \<le> of_int (?m - 1)
      \<and> real_of_int (?m - 1) < 2 powr (of_int ?k + 1)"
    using floor_log_eq_powr_iff [of "of_int (?m - 1)" 2 ?k] m by simp
  then have lo: "(2::real) powr of_int ?k \<le> of_int (?m - 1)"
    and hi: "real_of_int (?m - 1) < 2 powr of_int (?k + 1)"
    by simp_all
  have "0 \<le> log 2 (real_of_int (?m - 1))"
    using m by simp
  then have k0: "0 \<le> ?k + 1"
    by simp
  have "real_of_int (?m - 1) < (2::real) ^ nat (?k + 1)"
    using hi two_powr_of_int [OF k0] by (simp only:)
  then have "?m - 1 < 2 ^ nat (?k + 1)"
    by (simp del: of_int_diff)
  then have "?m \<le> 2 ^ nat (?k + 1)" by simp
  then have "real_of_int ?m \<le> (2::real) ^ nat (?k + 1)"
    by simp
  then have "real_of_int ?m \<le> 2 powr real_of_int (?k + 1)"
    using two_powr_of_int [OF k0] by (simp only:)
  moreover have "?y \<le> real_of_int ?m"
    by linarith
  ultimately have yhi: "?y \<le> 2 powr of_int (?k + 1)"
    by linarith
  have ylo: "2 powr of_int ?k < ?y"
    using lo by linarith
  have xpos: "0 < \<bar>x\<bar>" using assms by simp
  have "2 powr (- real_of_int (?k + 1)) \<le> \<bar>x\<bar>"
  proof -
    have "1 \<le> 2 powr real_of_int (?k + 1) * \<bar>x\<bar>"
      using yhi xpos by (simp add: pos_divide_le_eq)
    then have "1 / 2 powr real_of_int (?k + 1) \<le> \<bar>x\<bar>"
      by (simp add: pos_divide_le_eq mult.commute)
    then show ?thesis
      by (simp only: powr_minus inverse_eq_divide)
  qed
  moreover have "\<bar>x\<bar> < 2 powr (- real_of_int ?k)"
  proof -
    have "2 powr real_of_int ?k * \<bar>x\<bar> < 1"
      using ylo xpos by (simp add: pos_less_divide_eq)
    then have "\<bar>x\<bar> < 1 / 2 powr real_of_int ?k"
      by (simp add: pos_less_divide_eq mult.commute)
    then show ?thesis
      by (simp only: powr_minus inverse_eq_divide)
  qed
  ultimately have "\<lfloor>log 2 \<bar>x\<bar>\<rfloor> = - (?k + 1)"
    using floor_log_eq_powr_iff [of "\<bar>x\<bar>" 2 "- (?k + 1)"] xpos by simp
  moreover have "f32_exponent x = - (?k + 1)"
    using False m by (simp add: f32_exponent_def bitlen_alt_def)
  ultimately show ?thesis by simp
qed

lemma f32_round_int:
  assumes "x \<in> \<int>" and "\<bar>x\<bar> \<le> 16777216"
  shows "f32_round x = Some x"
proof (cases "x = 0")
  case True
  then show ?thesis by (simp add: f32_round_def)
next
  case False
  from assms(1) obtain m where x: "x = of_int m" by (auto elim: Ints_cases)
  let ?n = "\<bar>m\<bar>"
  have n: "1 \<le> ?n" "?n \<le> 16777216" using False assms(2) x by auto
  have ax: "\<bar>x\<bar> = of_int ?n" by (simp add: x)
  let ?e = "bitlen ?n - 1"
  have "1 \<le> \<bar>x\<bar>" unfolding ax using n(1) by (simp del: of_int_abs)
  then have e: "f32_exponent x = ?e"
    by (simp add: f32_exponent_def ax del: of_int_abs)
  have b: "2 ^ nat ?e \<le> ?n" "?n < 2 ^ nat (bitlen ?n)"
    using bitlen_bounds [of ?n] n by auto
  have e0: "0 \<le> ?e" using n by (auto simp add: bitlen_alt_def)
  have "(2::int) ^ nat ?e \<le> 2 ^ 24" using b(1) n(2) by simp
  then have "nat ?e \<le> 24"
    using power_le_imp_le_exp [of "2::int" "nat ?e" 24] by simp
  then have e24: "?e \<le> 24"
    by simp
  let ?q = "pow2 (max (?e - 23) (- 149))"
  have "\<exists>j::int. \<bar>x\<bar> / ?q = of_int j"
  proof (cases "?e \<le> 23")
    case True
    then have "?q = 1 / 2 ^ nat (23 - ?e)"
      using e0 by (auto simp add: pow2_def max_def)
    then have "\<bar>x\<bar> / ?q = of_int (?n * 2 ^ nat (23 - ?e))"
      by (simp add: ax del: of_int_abs)
    then show ?thesis by blast
  next
    case False
    then have e: "?e = 24" using e24 by simp
    then have "?n = 2 ^ 24" using b(1) n(2) by simp
    moreover have "?q = 2" using e by (simp add: pow2_def)
    ultimately have "\<bar>x\<bar> / ?q = of_int (2 ^ 23)"
      by (simp add: ax del: of_int_abs)
    then show ?thesis by blast
  qed
  then obtain j :: int where j: "\<bar>x\<bar> / ?q = of_int j" by blast
  have qpos: "0 < ?q" by (simp add: pow2_def)
  have r: "of_int (round_half_even (\<bar>x\<bar> / ?q)) * ?q = \<bar>x\<bar>"
    using j qpos by (simp add: round_half_even_of_int field_simps)
  have "\<bar>x\<bar> < 2 ^ 128" using assms(2) by simp
  then show ?thesis
    using False r by (simp add: f32_round_def e Let_def sgn_if)
qed

lemma round_half_even_close: "\<bar>of_int (round_half_even x) - x\<bar> \<le> 1 / 2"
  unfolding round_half_even_def Let_def by (auto; linarith)

lemma abs_scale:
  fixes n a q :: real
  assumes "0 < q"
  shows "\<bar>n * q - a\<bar> = \<bar>n - a / q\<bar> * q"
proof -
  have "n * q - a = (n - a / q) * q"
    using assms by (simp add: field_simps)
  then have "\<bar>n * q - a\<bar> = \<bar>n - a / q\<bar> * \<bar>q\<bar>"
    by (simp only: abs_mult)
  then show ?thesis
    using assms by simp
qed

lemma pow2_pos: "0 < pow2 k"
  by (simp add: pow2_def)

lemma f32_exponent_le: 
  assumes "x \<noteq> 0"
  shows "pow2 (f32_exponent x) \<le> \<bar>x\<bar>"
proof -
  have "2 powr of_int \<lfloor>log 2 \<bar>x\<bar>\<rfloor> \<le> \<bar>x\<bar>"
    using floor_log_eq_powr_iff [of "\<bar>x\<bar>" 2 "\<lfloor>log 2 \<bar>x\<bar>\<rfloor>"] assms by simp
  then show ?thesis
    by (simp add: pow2_powr f32_exponent_log [OF assms])
qed

lemma f32_round_close:
  assumes "f32_round x = Some y"
  shows "\<bar>y - x\<bar> \<le> max (\<bar>x\<bar> / 2 ^ 24) (1 / 2 ^ 150)"
proof (cases "x = 0")
  case True
  then show ?thesis using assms by (simp add: f32_round_def)
next
  case False
  let ?k = "max (f32_exponent x - 23) (- 149)"
  let ?q = "pow2 ?k"
  let ?n = "round_half_even (\<bar>x\<bar> / ?q)"
  have y: "y = sgn x * (of_int ?n * ?q)"
    using assms False by (simp add: f32_round_def Let_def split: if_splits)
  have q: "0 < ?q" by (rule pow2_pos)
  have "y - x = sgn x * (of_int ?n * ?q - \<bar>x\<bar>)"
    by (simp only: y right_diff_distrib mult_sgn_abs)
  then have "\<bar>y - x\<bar> = \<bar>sgn x\<bar> * \<bar>of_int ?n * ?q - \<bar>x\<bar>\<bar>"
    by (simp only: abs_mult)
  also have "\<dots> = \<bar>of_int ?n * ?q - \<bar>x\<bar>\<bar>"
    using False by (simp only: abs_sgn_eq if_False mult_1)
  also have "\<dots> = \<bar>of_int ?n - \<bar>x\<bar> / ?q\<bar> * ?q"
    by (rule abs_scale [OF q])
  also have "\<dots> \<le> (1 / 2) * ?q"
    using round_half_even_close [of "\<bar>x\<bar> / ?q"] q by (intro mult_right_mono) simp_all
  finally have b: "\<bar>y - x\<bar> \<le> ?q / 2" by simp
  show ?thesis
  proof (cases "- 149 \<le> f32_exponent x - 23")
    case True
    then have "?k = f32_exponent x - 23"
      by simp
    then have "?q = 2 powr (of_int (f32_exponent x) - 23)"
      by (simp only: pow2_powr of_int_diff of_int_numeral)
    also have "\<dots> = pow2 (f32_exponent x) / 2 ^ 23"
      by (simp add: pow2_powr powr_diff)
    finally have "?q / 2 = pow2 (f32_exponent x) / 2 ^ 24"
      by simp
    also have "\<dots> \<le> \<bar>x\<bar> / 2 ^ 24"
      using f32_exponent_le [OF False] by (simp add: divide_right_mono)
    finally have "?q / 2 \<le> \<bar>x\<bar> / 2 ^ 24" .
    with b have "\<bar>y - x\<bar> \<le> \<bar>x\<bar> / 2 ^ 24"
      by (rule order_trans)
    then show ?thesis
      by (rule max.coboundedI1)
  next
    case False
    then have "?q = 1 / 2 ^ 149"
      by (simp add: pow2_def max_def)
    then have "?q / 2 = 1 / 2 ^ 150" by simp
    with b have "\<bar>y - x\<bar> \<le> 1 / 2 ^ 150"
      by (simp only:)
    then show ?thesis
      by (rule max.coboundedI2)
  qed
qed

lemma f32_add_close:
  "f32_add x y = Some s \<Longrightarrow> \<bar>s - (x + y)\<bar> \<le> max (\<bar>x + y\<bar> / 2 ^ 24) (1 / 2 ^ 150)"
  unfolding f32_add_def by (rule f32_round_close)

lemma f32_add_int:
  "x + y \<in> \<int> \<Longrightarrow> \<bar>x + y\<bar> \<le> 16777216 \<Longrightarrow> f32_add x y = Some (x + y)"
  by (simp add: f32_add_def f32_round_int)

lemma f32_add_rounds: "f32_add (1 - 1 / 262144) 199 = Some 200"
  by code_simp

lemma f32_add_overflows: "f32_add (2 ^ 127) (2 ^ 127) = None"
  by code_simp

subsection \<open>The containment test\<close>

lemma zone_from_points_two:
  "zone_from_points [[ax, ay], [bx, by]] = Inr (min ax bx, min ay by, max ax bx, max ay by)"
  by (simp add: zone_from_points_def getitem_def zone_bounds_def)

lemma feet_sums:
  "f32_add x1 x2 = Some sx \<Longrightarrow> f32_add y1 y2 = Some sy \<Longrightarrow>
   feet (x1, y1, x2, y2) = Inr (py_int (sx / 2), py_int y2)"
  by (simp add: feet_def Let_def)

lemma feet_raises:
  "f32_add x1 x2 = None \<or> f32_add y1 y2 = None \<Longrightarrow>
   feet (x1, y1, x2, y2) = Inl OverflowError"
  by (auto simp add: feet_def split: option.splits)

lemma is_inside_anchor:
  "feet b = Inr (fx, fy) \<Longrightarrow>
   is_inside (min_x, min_y, max_x, max_y) b
     = (min_x \<le> fx \<and> fx \<le> max_x \<and> min_y \<le> fy \<and> fy \<le> max_y)"
  by (simp add: is_inside_def)

text \<open>
  C3. For a box \<open>(x1, y1, x2, y2)\<close> and two corner points: the anchor is the bottom centre
  of the box, \<open>int\<close> of half the \<open>float32\<close> sum of \<open>x1\<close> and \<open>x2\<close>, and \<open>int\<close> of \<open>y2\<close>,
  and computing it raises OverflowError when one of the two sums is infinite; the half
  sum is the midpoint up to a relative error of \<open>2 ^ - 24\<close> (an absolute one of
  \<open>2 ^ - 151\<close> near zero), and the sum is the exact one when it is an integer of
  magnitude at most \<open>2 ^ 24\<close>;
  the corners are normalised to \<open>(min_x, min_y, max_x, max_y)\<close> with \<open>min_x \<le> max_x\<close> and
  \<open>min_y \<le> max_y\<close>; the detection is inside exactly when \<open>min_x \<le> anchor_x \<le> max_x\<close> and
  \<open>min_y \<le> anchor_y \<le> max_y\<close>; swapping the two corners gives the same zone; and an
  anchor on an edge of the zone is inside.
\<close>

theorem containment_test:
  "(f32_add x1 x2 = Some sx \<and> f32_add y1 y2 = Some sy \<longrightarrow>
      feet (x1, y1, x2, y2) = Inr (py_int (sx / 2), py_int y2))
   \<and> (f32_add x1 x2 = None \<or> f32_add y1 y2 = None \<longrightarrow>
        feet (x1, y1, x2, y2) = Inl OverflowError)
   \<and> (f32_add x1 x2 = Some sx \<longrightarrow>
        \<bar>sx / 2 - (x1 + x2) / 2\<bar> \<le> max (\<bar>(x1 + x2) / 2\<bar> / 2 ^ 24) (1 / 2 ^ 151))
   \<and> (x1 + x2 \<in> \<int> \<and> \<bar>x1 + x2\<bar> \<le> 16777216 \<longrightarrow> f32_add x1 x2 = Some (x1 + x2))
   \<and> zone_from_points [[cx, cy], [dx, dy]] = Inr (min cx dx, min cy dy, max cx dx, max cy dy)
   \<and> min cx dx \<le> max cx dx \<and> min cy dy \<le> max cy dy
   \<and> (feet b = Inr (fx, fy) \<longrightarrow>
        is_inside (min cx dx, min cy dy, max cx dx, max cy dy) b
          = (min cx dx \<le> fx \<and> fx \<le> max cx dx \<and> min cy dy \<le> fy \<and> fy \<le> max cy dy))
   \<and> zone_from_points [[dx, dy], [cx, cy]] = zone_from_points [[cx, cy], [dx, dy]]
   \<and> (feet b = Inr (fx, fy) \<and> (fx = min cx dx \<or> fx = max cx dx)
        \<and> min cy dy \<le> fy \<and> fy \<le> max cy dy
       \<longrightarrow> is_inside (min cx dx, min cy dy, max cx dx, max cy dy) b)
   \<and> (feet b = Inr (fx, fy) \<and> (fy = min cy dy \<or> fy = max cy dy)
        \<and> min cx dx \<le> fx \<and> fx \<le> max cx dx
       \<longrightarrow> is_inside (min cx dx, min cy dy, max cx dx, max cy dy) b)"
proof -
  have "\<bar>sx / 2 - (x1 + x2) / 2\<bar> \<le> max (\<bar>(x1 + x2) / 2\<bar> / 2 ^ 24) (1 / 2 ^ 151)"
    if "f32_add x1 x2 = Some sx"
  proof -
    have "\<bar>sx / 2 - (x1 + x2) / 2\<bar> = \<bar>sx - (x1 + x2)\<bar> / 2"
      by (simp add: diff_divide_distrib [symmetric] del: diff_divide_distrib)
    also have "\<dots> \<le> max (\<bar>x1 + x2\<bar> / 2 ^ 24) (1 / 2 ^ 150) / 2"
      using f32_add_close [OF that] by (simp only: divide_right_mono zero_le_numeral)
    also have "\<dots> = max (\<bar>(x1 + x2) / 2\<bar> / 2 ^ 24) (1 / 2 ^ 151)"
      by (simp add: max_def)
    finally show ?thesis .
  qed
  then show ?thesis
    using feet_sums [of x1 x2 sx y1 y2 sy] feet_raises [of x1 x2 y1 y2] f32_add_int [of x1 x2]
      is_inside_anchor [of b fx fy "min cx dx" "min cy dy" "max cx dx" "max cy dy"]
    by (auto simp add: zone_from_points_two min.commute max.commute)
qed

text \<open>
  The zone of Scenario A with its corners swapped. The sum of \<open>1 - 2 ^ - 18\<close> and 199
  rounds to 200, so the anchor of the first box is \<open>(100, 200)\<close>, on the left edge, and
  the box is inside; its exact midpoint would give 99. The second box has its anchor
  \<open>(300, 100)\<close> on the top right corner, the third a pixel further right. The sum of
  \<open>2 ^ 127\<close> and \<open>2 ^ 127\<close> is infinite, and the fourth box has no anchor.
\<close>

theorem containment_test_witness:
  "zone_from_points [[300, 300], [100, 100]] = Inr (100, 100, 300, 300)
   \<and> f32_add (1 - 1 / 262144) 199 = Some 200
   \<and> feet (1 - 1 / 262144, 50, 199, 200) = Inr (100, 200)
   \<and> is_inside (100, 100, 300, 300) (1 - 1 / 262144, 50, 199, 200)
   \<and> feet (250, 20, 350, 100.5) = Inr (300, 100)
   \<and> is_inside (100, 100, 300, 300) (250, 20, 350, 100.5)
   \<and> feet (250, 20, 352, 100.5) = Inr (301, 100)
   \<and> \<not> is_inside (100, 100, 300, 300) (250, 20, 352, 100.5)
   \<and> f32_add (2 ^ 127) (2 ^ 127) = None
   \<and> feet (2 ^ 127, 20, 2 ^ 127, 100) = Inl OverflowError"
proof -
  have y: "f32_add 50 200 = Some 250" "f32_add 20 100.5 = Some 120.5"
    by code_simp+
  have x: "f32_add 250 350 = Some 600" "f32_add 250 352 = Some 602"
    by (simp_all add: f32_add_int)
  show ?thesis
    using containment_test [where ?x1.0 = "1 - 1 / 262144" and ?y1.0 = 50 and ?x2.0 = 199
        and ?y2.0 = 200 and sx = 200 and sy = 250 and b = "(1 - 1 / 262144, 50, 199, 200)"
        and fx = 100 and fy = 200 and cx = 300 and cy = 300 and dx = 100 and dy = 100]
      containment_test [where ?x1.0 = 250 and ?y1.0 = 20 and ?x2.0 = 350
        and ?y2.0 = "100.5" and sx = 600 and sy = "120.5" and b = "(250, 20, 350, 100.5)"
        and fx = 300 and fy = 100 and cx = 300 and cy = 300 and dx = 100 and dy = 100]
      containment_test [where ?x1.0 = 250 and ?y1.0 = 20 and ?x2.0 = 352
        and ?y2.0 = "100.5" and sx = 602 and sy = "120.5" and b = "(250, 20, 352, 100.5)"
        and fx = 301 and fy = 100 and cx = 300 and cy = 300 and dx = 100 and dy = 100]
      containment_test [where ?x1.0 = "2 ^ 127" and ?y1.0 = 20 and ?x2.0 = "2 ^ 127"
        and ?y2.0 = 100 and sx = 0 and sy = 120 and b = "(250, 20, 352, 100.5)"
        and fx = 301 and fy = 100 and cx = 300 and cy = 300 and dx = 100 and dy = 100]
      f32_add_rounds f32_add_overflows x y
    by (simp add: py_int_def)
qed

subsection \<open>The tracking loop\<close>

lemma track_step_tracked:
  "tracked_objects (snd (track_step z (occ, self) (b, t))) =
     (tracked_objects self)(t \<mapsto> is_inside z b)"
  by (simp add: track_step_def Let_def split: option.split)

lemma track_step_occupants:
  "fst (track_step z (occ, self) (b, t)) = (if is_inside z b then insert t occ else occ)"
  by (simp add: track_step_def Let_def split: option.split)

lemma track_step_in:
  "in_zone_count (snd (track_step z (occ, self) (b, t))) =
     in_zone_count self + (if tracked_objects self t = Some False \<and> is_inside z b then 1 else 0)"
  by (simp add: track_step_def Let_def split: option.split)

lemma track_step_out:
  "out_zone_count (snd (track_step z (occ, self) (b, t))) =
     out_zone_count self + (if tracked_objects self t = Some True \<and> \<not> is_inside z b then 1 else 0)"
  by (simp add: track_step_def Let_def split: option.split)

lemma track_step_rest:
  "frame_count (snd (track_step z st det)) = frame_count (snd st)"
  "alerts_count (snd (track_step z st det)) = alerts_count (snd st)"
  "current_zone_occupancy (snd (track_step z st det)) = current_zone_occupancy (snd st)"
  "occupancy_history (snd (track_step z st det)) = occupancy_history (snd st)"
  "in_history (snd (track_step z st det)) = in_history (snd st)"
  "out_history (snd (track_step z st det)) = out_history (snd st)"
  "fps_start_time (snd (track_step z st det)) = fps_start_time (snd st)"
  "fps_frame_count (snd (track_step z st det)) = fps_frame_count (snd st)"
  "current_fps (snd (track_step z st det)) = current_fps (snd st)"
  by (cases st; cases det; simp add: track_step_def Let_def split: option.split)+

lemma track_loop_rest:
  "frame_count (snd (foldl (track_step z) st dets)) = frame_count (snd st)"
  "alerts_count (snd (foldl (track_step z) st dets)) = alerts_count (snd st)"
  "current_zone_occupancy (snd (foldl (track_step z) st dets)) = current_zone_occupancy (snd st)"
  "occupancy_history (snd (foldl (track_step z) st dets)) = occupancy_history (snd st)"
  "in_history (snd (foldl (track_step z) st dets)) = in_history (snd st)"
  "out_history (snd (foldl (track_step z) st dets)) = out_history (snd st)"
  "fps_start_time (snd (foldl (track_step z) st dets)) = fps_start_time (snd st)"
  "fps_frame_count (snd (foldl (track_step z) st dets)) = fps_frame_count (snd st)"
  "current_fps (snd (foldl (track_step z) st dets)) = current_fps (snd st)"
  by (induction dets arbitrary: st; simp add: track_step_rest)+

lemma ids_Cons:
  "{t'. \<exists>b'. (b', t') \<in> set ((b, t) # dets) \<and> P b'}
     = (if P b then {t} else {}) \<union> {t'. \<exists>b'. (b', t') \<in> set dets \<and> P b'}"
  by auto

lemma track_loop_occupants:
  "fst (foldl (track_step z) (occ, self) dets) =
     occ \<union> {t. \<exists>b. (b, t) \<in> set dets \<and> is_inside z b}"
proof (induction dets arbitrary: occ self)
  case Nil
  show ?case by simp
next
  case (Cons det dets)
  obtain b t where det: "det = (b, t)" by (cases det)
  obtain occ1 self1 where st1: "track_step z (occ, self) (b, t) = (occ1, self1)"
    by (cases "track_step z (occ, self) (b, t)")
  have occ1: "occ1 = (if is_inside z b then insert t occ else occ)"
    using track_step_occupants [of z occ self b t] st1 by simp
  have "{t'. \<exists>b'. (b', t') \<in> set (det # dets) \<and> is_inside z b'}
      = (if is_inside z b then {t} else {}) \<union> {t'. \<exists>b'. (b', t') \<in> set dets \<and> is_inside z b'}"
    unfolding det by (rule ids_Cons)
  then show ?case
    using Cons.IH [of occ1 self1] by (simp add: det st1 occ1 Un_ac)
qed

lemma track_loop_tracked_absent:
  "t \<notin> snd ` set dets \<Longrightarrow>
   tracked_objects (snd (foldl (track_step z) (occ, self) dets)) t = tracked_objects self t"
proof (induction dets arbitrary: occ self)
  case Nil
  show ?case by simp
next
  case (Cons det dets)
  obtain b u where det: "det = (b, u)" by (cases det)
  obtain occ1 self1 where st1: "track_step z (occ, self) (b, u) = (occ1, self1)"
    by (cases "track_step z (occ, self) (b, u)")
  have "tracked_objects self1 = (tracked_objects self)(u \<mapsto> is_inside z b)"
    using track_step_tracked [of z occ self b u] st1 by simp
  moreover have "t \<noteq> u" "t \<notin> snd ` set dets"
    using Cons.prems det by auto
  ultimately show ?case
    using Cons.IH [of occ1 self1] by (simp add: det st1)
qed

lemma track_loop_tracked_present:
  "distinct (map snd dets) \<Longrightarrow> (b, t) \<in> set dets \<Longrightarrow>
   tracked_objects (snd (foldl (track_step z) (occ, self) dets)) t = Some (is_inside z b)"
proof (induction dets arbitrary: occ self)
  case Nil
  then show ?case by simp
next
  case (Cons det dets)
  obtain c u where det: "det = (c, u)" by (cases det)
  obtain occ1 self1 where st1: "track_step z (occ, self) (c, u) = (occ1, self1)"
    by (cases "track_step z (occ, self) (c, u)")
  have tr1: "tracked_objects self1 = (tracked_objects self)(u \<mapsto> is_inside z c)"
    using track_step_tracked [of z occ self c u] st1 by simp
  show ?case
  proof (cases "(b, t) = (c, u)")
    case True
    then have "t \<notin> snd ` set dets"
      using Cons.prems(1) det by auto
    then show ?thesis
      using track_loop_tracked_absent [of t dets z occ1 self1] True tr1
      by (simp add: det st1)
  next
    case False
    then have "(b, t) \<in> set dets"
      using Cons.prems(2) det by auto
    then show ?thesis
      using Cons.IH [of occ1 self1] Cons.prems(1) by (simp add: det st1)
  qed
qed

lemma track_loop_in:
  "distinct (map snd dets) \<Longrightarrow>
   in_zone_count (snd (foldl (track_step z) (occ, self) dets)) =
     in_zone_count self
     + int (length (filter (\<lambda>(b, t). tracked_objects self t = Some False \<and> is_inside z b) dets))"
proof (induction dets arbitrary: occ self)
  case Nil
  show ?case by simp
next
  case (Cons det dets)
  obtain c u where det: "det = (c, u)" by (cases det)
  obtain occ1 self1 where st1: "track_step z (occ, self) (c, u) = (occ1, self1)"
    by (cases "track_step z (occ, self) (c, u)")
  have tr1: "tracked_objects self1 = (tracked_objects self)(u \<mapsto> is_inside z c)"
    using track_step_tracked [of z occ self c u] st1 by simp
  have in1: "in_zone_count self1 =
      in_zone_count self + (if tracked_objects self u = Some False \<and> is_inside z c then 1 else 0)"
    using track_step_in [of z occ self c u] st1 by simp
  have "u \<notin> snd ` set dets"
    using Cons.prems det by simp
  then have same: "filter (\<lambda>(b, t). tracked_objects self1 t = Some False \<and> is_inside z b) dets
      = filter (\<lambda>(b, t). tracked_objects self t = Some False \<and> is_inside z b) dets"
    by (intro filter_cong) (force simp add: tr1)+
  show ?case
    using Cons.IH [of occ1 self1] Cons.prems by (simp add: det st1 in1 same)
qed

lemma track_loop_out:
  "distinct (map snd dets) \<Longrightarrow>
   out_zone_count (snd (foldl (track_step z) (occ, self) dets)) =
     out_zone_count self
     + int (length (filter (\<lambda>(b, t). tracked_objects self t = Some True \<and> \<not> is_inside z b) dets))"
proof (induction dets arbitrary: occ self)
  case Nil
  show ?case by simp
next
  case (Cons det dets)
  obtain c u where det: "det = (c, u)" by (cases det)
  obtain occ1 self1 where st1: "track_step z (occ, self) (c, u) = (occ1, self1)"
    by (cases "track_step z (occ, self) (c, u)")
  have tr1: "tracked_objects self1 = (tracked_objects self)(u \<mapsto> is_inside z c)"
    using track_step_tracked [of z occ self c u] st1 by simp
  have out1: "out_zone_count self1 =
      out_zone_count self + (if tracked_objects self u = Some True \<and> \<not> is_inside z c then 1 else 0)"
    using track_step_out [of z occ self c u] st1 by simp
  have "u \<notin> snd ` set dets"
    using Cons.prems det by simp
  then have same: "filter (\<lambda>(b, t). tracked_objects self1 t = Some True \<and> \<not> is_inside z b) dets
      = filter (\<lambda>(b, t). tracked_objects self t = Some True \<and> \<not> is_inside z b) dets"
    by (intro filter_cong) (force simp add: tr1)+
  show ?case
    using Cons.IH [of occ1 self1] Cons.prems by (simp add: det st1 out1 same)
qed

lemma track_loop_mono:
  "in_zone_count (snd st) \<le> in_zone_count (snd (foldl (track_step z) st dets))
   \<and> out_zone_count (snd st) \<le> out_zone_count (snd (foldl (track_step z) st dets))"
proof (induction dets arbitrary: st)
  case Nil
  show ?case by simp
next
  case (Cons det dets)
  obtain occ self where st: "st = (occ, self)" by (cases st)
  obtain c u where det: "det = (c, u)" by (cases det)
  have "in_zone_count (snd st) \<le> in_zone_count (snd (track_step z st det))"
    "out_zone_count (snd st) \<le> out_zone_count (snd (track_step z st det))"
    by (simp_all add: st det track_step_in track_step_out)
  then show ?case
    using Cons.IH [of "track_step z st det"] by simp
qed

lemma card_ids_filter:
  assumes "distinct (map snd dets)"
  shows "card {t. \<exists>b. (b, t) \<in> set dets \<and> P b t} = length (filter (\<lambda>(b, t). P b t) dets)"
proof -
  have "{t. \<exists>b. (b, t) \<in> set dets \<and> P b t} = set (map snd (filter (\<lambda>(b, t). P b t) dets))"
    by force
  moreover have "distinct (map snd (filter (\<lambda>(b, t). P b t) dets))"
    using assms by (rule distinct_map_filter)
  ultimately show ?thesis
    using distinct_card [of "map snd (filter (\<lambda>(b, t). P b t) dets)"] by simp
qed

lemma fps_update_Inr:
  assumes "fps_update self nows = Inr self1"
  shows "frame_count self1 = frame_count self + 1"
    and "in_zone_count self1 = in_zone_count self"
    and "out_zone_count self1 = out_zone_count self"
    and "alerts_count self1 = alerts_count self"
    and "tracked_objects self1 = tracked_objects self"
    and "occupancy_history self1 = occupancy_history self"
    and "in_history self1 = in_history self"
    and "out_history self1 = out_history self"
  using assms
  by (auto simp add: fps_update_def Let_def split: prod.splits if_splits)

lemma fps_update_Inl:
  assumes "fps_update self nows = Inl (e, self1)"
  shows "in_zone_count self1 = in_zone_count self"
    and "out_zone_count self1 = out_zone_count self"
    and "occupancy_history self1 = occupancy_history self"
    and "frame_count self1 = frame_count self + 1"
  using assms
  by (auto simp add: fps_update_def Let_def split: prod.splits if_splits)

lemma update_statistics_fields:
  "current_zone_occupancy (update_statistics occ self thr) = int (card occ)"
  "occupancy_history (update_statistics occ self thr) =
     deque_append history_length (occupancy_history self) (int (card occ))"
  "alerts_count (update_statistics occ self thr) =
     alerts_count self + (if thr \<le> int (card occ) then 1 else 0)"
  "frame_count (update_statistics occ self thr) = frame_count self"
  "in_zone_count (update_statistics occ self thr) = in_zone_count self"
  "out_zone_count (update_statistics occ self thr) = out_zone_count self"
  "tracked_objects (update_statistics occ self thr) = tracked_objects self"
  by (simp_all add: update_statistics_def Let_def)

lemma track_loop_feet:
  "(\<forall>d \<in> set dets. \<exists>a. feet (fst d) = Inr a) \<Longrightarrow>
   track_loop z st dets = Inr (foldl (track_step z) st dets)"
proof (induction dets arbitrary: st)
  case Nil
  show ?case by simp
next
  case (Cons det dets)
  from Cons.prems obtain a where a: "feet (fst det) = Inr a"
    by auto
  from Cons.prems have "\<forall>d \<in> set dets. \<exists>a. feet (fst d) = Inr a"
    by simp
  then have "track_loop z (track_step z st det) dets
      = Inr (foldl (track_step z) (track_step z st det) dets)"
    by (rule Cons.IH)
  then show ?case
    by (simp add: a)
qed

lemma track_loop_Inr:
  "track_loop z st dets = Inr st' \<Longrightarrow>
   (\<forall>d \<in> set dets. \<exists>a. feet (fst d) = Inr a) \<and> st' = foldl (track_step z) st dets"
proof (induction dets arbitrary: st)
  case Nil
  then show ?case by simp
next
  case (Cons det dets)
  show ?case
  proof (cases "feet (fst det)")
    case (Inl e)
    then show ?thesis
      using Cons.prems by simp
  next
    case (Inr a)
    then have "track_loop z (track_step z st det) dets = Inr st'"
      using Cons.prems by simp
    then have "(\<forall>d \<in> set dets. \<exists>a. feet (fst d) = Inr a)
        \<and> st' = foldl (track_step z) (track_step z st det) dets"
      by (rule Cons.IH)
    then show ?thesis
      using Inr by simp
  qed
qed

lemma track_loop_Inl:
  "track_loop z st dets = Inl (e, s) \<Longrightarrow> \<exists>pre. s = snd (foldl (track_step z) st pre)"
proof (induction dets arbitrary: st)
  case Nil
  then show ?case by simp
next
  case (Cons det dets)
  show ?case
  proof (cases "feet (fst det)")
    case (Inl e')
    then have "s = snd (foldl (track_step z) st [])"
      using Cons.prems by simp
    then show ?thesis by blast
  next
    case (Inr a)
    then have "track_loop z (track_step z st det) dets = Inl (e, s)"
      using Cons.prems by simp
    then obtain pre where "s = snd (foldl (track_step z) (track_step z st det) pre)"
      using Cons.IH by blast
    then have "s = snd (foldl (track_step z) st (det # pre))"
      by simp
    then show ?thesis by blast
  qed
qed

lemma loop_result_Inr:
  "(case results of None \<Rightarrow> Inr ({}, self1) | Some dets \<Rightarrow> track_loop z ({}, self1) dets) = Inr st
   \<longleftrightarrow> (\<forall>d \<in> set (detections_of results). \<exists>a. feet (fst d) = Inr a)
       \<and> st = foldl (track_step z) ({}, self1) (detections_of results)"
proof (cases results)
  case None
  then show ?thesis by (auto simp add: detections_of_def)
next
  case (Some dets)
  show ?thesis
    using track_loop_Inr [of z "({}, self1)" dets st] track_loop_feet [of dets z "({}, self1)"]
    by (auto simp add: Some detections_of_def)
qed

lemma process_frame_Inr_iff:
  "process_frame self nows ext results pts thr = Inr self' \<longleftrightarrow>
     (\<exists>self1 z. fps_update self nows = Inr self1
        \<and> zone_from_points pts = Inr z
        \<and> draw_counting_zone ext z = None
        \<and> \<not> track_raises ext
        \<and> (\<forall>d \<in> set (detections_of results). \<exists>a. feet (fst d) = Inr a)
        \<and> (detections_of results \<noteq> [] \<longrightarrow> \<not> draw_detections_raises ext)
        \<and> \<not> create_dashboard_raises ext
        \<and> (thr \<le> current_zone_occupancy self' \<longrightarrow> \<not> putText_raises ext)
        \<and> self' = update_statistics
                    (fst (foldl (track_step z) ({}, self1) (detections_of results)))
                    (snd (foldl (track_step z) ({}, self1) (detections_of results))) thr)"
proof (cases "fps_update self nows")
  case (Inl err)
  then show ?thesis by (simp add: process_frame_def)
next
  case f: (Inr self1)
  show ?thesis
  proof (cases "zone_from_points pts")
    case (Inl e)
    then show ?thesis by (simp add: process_frame_def f)
  next
    case z: (Inr z)
    show ?thesis
    proof (cases "draw_counting_zone ext z = None \<and> \<not> track_raises ext")
      case False
      then show ?thesis by (auto simp add: process_frame_def f z split: option.splits)
    next
      case True
      let ?loop = "case results of None \<Rightarrow> Inr ({}, self1)
                   | Some dets \<Rightarrow> track_loop z ({}, self1) dets"
      show ?thesis
      proof (cases ?loop)
        case (Inl err)
        have "\<not> (\<forall>d \<in> set (detections_of results). \<exists>a. feet (fst d) = Inr a)"
        proof
          assume "\<forall>d \<in> set (detections_of results). \<exists>a. feet (fst d) = Inr a"
          then have "?loop = Inr (foldl (track_step z) ({}, self1) (detections_of results))"
            by (simp only: loop_result_Inr simp_thms)
          then show False
            using Inl by simp
        qed
        then show ?thesis
          using True Inl by (simp add: process_frame_def f z)
      next
        case (Inr st)
        let ?F = "foldl (track_step z) ({}, self1) (detections_of results)"
        let ?occ = "fst ?F"
        let ?self2 = "snd ?F"
        from Inr have feet_ok: "\<forall>d \<in> set (detections_of results). \<exists>a. feet (fst d) = Inr a"
          and st: "st = ?F"
          using loop_result_Inr [where results = results and ?self1.0 = self1 and z = z and st = st]
          by simp_all
        have "?loop = Inr (?occ, ?self2)"
          using Inr st by simp
        then have "process_frame self nows ext results pts thr =
            (if detections_of results \<noteq> [] \<and> draw_detections_raises ext
             then Inl (ExternalError, ?self2)
             else if create_dashboard_raises ext
               then Inl (ExternalError, update_statistics ?occ ?self2 thr)
               else if thr \<le> current_zone_occupancy (update_statistics ?occ ?self2 thr)
                       \<and> putText_raises ext
               then Inl (ExternalError, update_statistics ?occ ?self2 thr)
               else Inr (update_statistics ?occ ?self2 thr))"
          using True by (simp add: process_frame_def f z Let_def case_prod_beta)
        then show ?thesis
          using True feet_ok by (auto simp add: f z)
      qed
    qed
  qed
qed

lemma process_frame_Inr:
  assumes "process_frame self nows ext results pts thr = Inr self'"
  obtains self1 z where
    "fps_update self nows = Inr self1"
    "zone_from_points pts = Inr z"
    "self' = update_statistics
               (fst (foldl (track_step z) ({}, self1) (detections_of results)))
               (snd (foldl (track_step z) ({}, self1) (detections_of results))) thr"
  using assms process_frame_Inr_iff [of self nows ext results pts thr self'] by blast

lemma process_frame_Inl_shape:
  assumes "process_frame self nows ext results pts thr = Inl (e, s)"
  shows "\<exists>self1 z pre occ.
           (fps_update self nows = Inr self1 \<or> (\<exists>e'. fps_update self nows = Inl (e', self1)))
           \<and> (s = snd (foldl (track_step z) ({}, self1) pre)
              \<or> s = update_statistics occ (snd (foldl (track_step z) ({}, self1) pre)) thr)"
proof (cases "fps_update self nows")
  case (Inl err)
  then have "fps_update self nows = Inl (e, s)"
    using assms by (simp add: process_frame_def)
  then have "(\<exists>e'. fps_update self nows = Inl (e', s))
      \<and> s = snd (foldl (track_step undefined) ({}, s) [])"
    by simp
  then show ?thesis by blast
next
  case f: (Inr self1)
  have start: "s = self1 \<Longrightarrow> ?thesis"
  proof -
    assume "s = self1"
    then have "fps_update self nows = Inr self1 \<and> s = snd (foldl (track_step undefined) ({}, self1) [])"
      using f by simp
    then show ?thesis by blast
  qed
  show ?thesis
  proof (cases "zone_from_points pts")
    case (Inl e')
    then show ?thesis
      using assms start by (simp add: process_frame_def f)
  next
    case z: (Inr z)
    show ?thesis
    proof (cases "draw_counting_zone ext z = None \<and> \<not> track_raises ext")
      case False
      then show ?thesis
        using assms start by (auto simp add: process_frame_def f z split: option.splits if_splits)
    next
      case True
      let ?loop = "case results of None \<Rightarrow> Inr ({}, self1)
                   | Some dets \<Rightarrow> track_loop z ({}, self1) dets"
      show ?thesis
      proof (cases ?loop)
        case (Inl err)
        then have err: "err = (e, s)"
          using assms True by (simp add: process_frame_def f z)
        from Inl obtain dets where "results = Some dets"
          and "track_loop z ({}, self1) dets = Inl (e, s)"
          by (cases results) (simp_all add: err)
        then obtain pre where "s = snd (foldl (track_step z) ({}, self1) pre)"
          using track_loop_Inl by blast
        then show ?thesis
          using f by blast
      next
        case (Inr st)
        then have st: "st = foldl (track_step z) ({}, self1) (detections_of results)"
          using loop_result_Inr [where results = results and ?self1.0 = self1 and z = z and st = st] by simp
        obtain occ self2 where st2: "st = (occ, self2)" by (cases st)
        have self2: "self2 = snd (foldl (track_step z) ({}, self1) (detections_of results))"
          using st st2 by (metis snd_conv)
        have "process_frame self nows ext results pts thr =
            (if detections_of results \<noteq> [] \<and> draw_detections_raises ext
             then Inl (ExternalError, self2)
             else if create_dashboard_raises ext
               then Inl (ExternalError, update_statistics occ self2 thr)
               else if thr \<le> current_zone_occupancy (update_statistics occ self2 thr)
                       \<and> putText_raises ext
               then Inl (ExternalError, update_statistics occ self2 thr)
               else Inr (update_statistics occ self2 thr))"
          using True Inr by (simp add: process_frame_def f z st2 Let_def)
        then have "s = self2 \<or> s = update_statistics occ self2 thr"
          using assms by (auto split: if_splits)
        then show ?thesis
          using f self2 by blast
      qed
    qed
  qed
qed

lemma process_frame_Inl:
  assumes "process_frame self nows ext results pts thr = Inl (e, s)"
  shows "in_zone_count self \<le> in_zone_count s"
    and "out_zone_count self \<le> out_zone_count s"
    and "length (occupancy_history self) \<le> 100 \<Longrightarrow> length (occupancy_history s) \<le> 100"
    and "frame_count s = frame_count self + 1"
proof -
  from process_frame_Inl_shape [OF assms] obtain self1 z pre occ where
    f: "fps_update self nows = Inr self1 \<or> (\<exists>e'. fps_update self nows = Inl (e', self1))" and
    s: "s = snd (foldl (track_step z) ({}, self1) pre)
        \<or> s = update_statistics occ (snd (foldl (track_step z) ({}, self1) pre)) thr"
    by blast
  let ?s2 = "snd (foldl (track_step z) ({}, self1) pre)"
  from f have f1: "in_zone_count self1 = in_zone_count self"
    "out_zone_count self1 = out_zone_count self"
    "occupancy_history self1 = occupancy_history self"
    "frame_count self1 = frame_count self + 1"
    by (auto simp add: fps_update_Inr fps_update_Inl)
  have m: "in_zone_count self1 \<le> in_zone_count ?s2" "out_zone_count self1 \<le> out_zone_count ?s2"
    using track_loop_mono [of "({}, self1)" z pre] by simp_all
  have r: "occupancy_history ?s2 = occupancy_history self1" "frame_count ?s2 = frame_count self1"
    by (simp_all add: track_loop_rest)
  show "in_zone_count self \<le> in_zone_count s"
    using s m f1 by (auto simp add: update_statistics_fields)
  show "out_zone_count self \<le> out_zone_count s"
    using s m f1 by (auto simp add: update_statistics_fields)
  show "frame_count s = frame_count self + 1"
    using s r f1 by (auto simp add: update_statistics_fields)
  show "length (occupancy_history s) \<le> 100" if "length (occupancy_history self) \<le> 100"
    using s r f1 that
    by (auto simp add: update_statistics_fields deque_append_def history_length_def Let_def)
qed

lemma finite_ids: "finite {t. \<exists>b. (b, t) \<in> set dets \<and> P b t}"
proof -
  have "{t. \<exists>b. (b, t) \<in> set dets \<and> P b t} \<subseteq> snd ` set dets"
    by force
  then show ?thesis
    by (rule finite_subset) simp
qed

lemma card_ids_split:
  assumes "distinct (map snd dets)" and "(b, t) \<in> set dets"
  shows "card {u. \<exists>c. (c, u) \<in> set dets \<and> P c u}
         = (if P b t then 1 else 0) + card {u. u \<noteq> t \<and> (\<exists>c. (c, u) \<in> set dets \<and> P c u)}"
proof -
  have only: "c = b" if "(c, t) \<in> set dets" for c
  proof -
    have "inj_on snd (set dets)"
      using assms(1) by (simp add: distinct_map)
    then have "(c, t) = (b, t)"
      using that assms(2) inj_onD [of snd "set dets" "(c, t)" "(b, t)"] by simp
    then show ?thesis by simp
  qed
  have fin: "finite {u. u \<noteq> t \<and> (\<exists>c. (c, u) \<in> set dets \<and> P c u)}"
  proof -
    have "{u. u \<noteq> t \<and> (\<exists>c. (c, u) \<in> set dets \<and> P c u)} \<subseteq> snd ` set dets"
      by force
    then show ?thesis
      by (rule finite_subset) simp
  qed
  show ?thesis
  proof (cases "P b t")
    case True
    then have "{u. \<exists>c. (c, u) \<in> set dets \<and> P c u}
        = insert t {u. u \<noteq> t \<and> (\<exists>c. (c, u) \<in> set dets \<and> P c u)}"
      using assms(2) by blast
    then show ?thesis
      using True fin by simp
  next
    case False
    then have "{u. \<exists>c. (c, u) \<in> set dets \<and> P c u}
        = {u. u \<noteq> t \<and> (\<exists>c. (c, u) \<in> set dets \<and> P c u)}"
      using only by blast
    then show ?thesis
      using False by simp
  qed
qed

lemma fps_update_returns:
  assumes "\<not> (1000000 \<le> now1 - fps_start_time self \<and> now2 = fps_start_time self)"
  obtains self1 where "fps_update self (now1, now2, now3) = Inr self1"
proof -
  have "\<exists>self1. fps_update self (now1, now2, now3) = Inr self1"
    using assms
    by (cases "1000000 \<le> now1 - fps_start_time self") (simp_all add: fps_update_def Let_def)
  then show ?thesis
    using that by blast
qed

lemma process_frame_returns:
  assumes "detections_of results = []"
    and "zone_from_points pts = Inr z"
    and "draw_counting_zone ext z = None"
    and "\<not> track_raises ext"
    and "\<not> create_dashboard_raises ext"
    and "thr \<le> 0 \<longrightarrow> \<not> putText_raises ext"
    and "\<not> (1000000 \<le> now1 - fps_start_time self \<and> now2 = fps_start_time self)"
  obtains self' where "process_frame self (now1, now2, now3) ext results pts thr = Inr self'"
proof -
  from assms(7) obtain self1 where f: "fps_update self (now1, now2, now3) = Inr self1"
    by (rule fps_update_returns)
  let ?self' = "update_statistics {} self1 thr"
  have "current_zone_occupancy ?self' = 0"
    by (simp add: update_statistics_fields)
  then have "process_frame self (now1, now2, now3) ext results pts thr = Inr ?self'"
    using assms(1-6) f
    by (simp add: process_frame_Inr_iff)
  then show ?thesis
    by (rule that)
qed

lemma process_frame_fps_start_time:
  assumes "process_frame self (now1, now2, now3) ext results pts thr = Inr self'"
    and "now1 - fps_start_time self < 1000000"
  shows "fps_start_time self' = fps_start_time self"
proof -
  from assms(1) obtain self1 z where
    f: "fps_update self (now1, now2, now3) = Inr self1" and
    self': "self' = update_statistics
               (fst (foldl (track_step z) ({}, self1) (detections_of results)))
               (snd (foldl (track_step z) ({}, self1) (detections_of results))) thr"
    by (rule process_frame_Inr)
  have "fps_start_time self1 = fps_start_time self"
    using f assms(2) by (auto simp add: fps_update_def Let_def split: if_splits)
  moreover have "fps_start_time self' = fps_start_time self1"
    by (simp add: self' update_statistics_def Let_def track_loop_rest)
  ultimately show ?thesis by simp
qed

lemma length_snapshots: "length (snapshots self evs) = length evs"
  by (induction evs arbitrary: self) simp_all

subsection \<open>The concrete runs, evaluated\<close>

lemma feet_boxes:
  "feet (40, 10, 60, 50) = Inr (50, 50)"
  "feet (190, 150, 210, 200) = Inr (200, 200)"
  "feet (240, 200, 260, 250) = Inr (250, 250)"
  "feet (100, 60, 120, 100) = Inr (110, 100)"
  by (simp_all add: feet_def f32_add_int py_int_def)

lemma draws_without_raise: "draw_counting_zone no_raise (100, 100, 300, 300) = None"
  by (simp add: draw_counting_zone_def fits_int32_def no_raise_def)

lemmas frame_eval =
  process_frame_def fps_update_def zone_from_points_def getitem_def zone_bounds_def
  track_step_def update_statistics_def deque_append_def history_length_def
  is_inside_def feet_boxes draw_counting_zone_def fits_int32_def no_raise_def
  detections_of_def init_def Let_def card_insert_if

lemma zone_A_bounds: "zone_from_points zone_A = Inr (100, 100, 300, 300)"
  by (simp add: zone_A_def zone_from_points_two)

lemma init_counts:
  "in_zone_count (init now) = 0" "out_zone_count (init now) = 0"
  "alerts_count (init now) = 0" "frame_count (init now) = 0"
  "occupancy_history (init now) = []" "tracked_objects (init now) t = None"
  by (simp_all add: init_def)

lemma frame_2_returns:
  "process_frame (run (init 0) [frame_1]) (40000, 40000, 40000) no_raise
     (Some [((190, 150, 210, 200), 1), ((40, 10, 60, 50), 2), ((100, 60, 120, 100), 3),
            ((240, 200, 260, 250), 4)]) zone_A 10
   = Inr (run (init 0) [frame_1, frame_2])"
  by (simp add: frame_1_def frame_2_def zone_A_def frame_eval)

lemma after_frame_1:
  "tracked_objects (run (init 0) [frame_1]) 1 = Some False"
  "tracked_objects (run (init 0) [frame_1]) 2 = Some True"
  "tracked_objects (run (init 0) [frame_1]) 3 = None"
  "tracked_objects (run (init 0) [frame_1]) 4 = Some True"
  "in_zone_count (run (init 0) [frame_1]) = 0"
  "out_zone_count (run (init 0) [frame_1]) = 0"
  "occupancy_history (run (init 0) [frame_1]) = [2]"
  by (simp_all add: frame_1_def zone_A_def frame_eval)

lemma after_frame_2:
  "tracked_objects (run (init 0) [frame_1, frame_2]) 1 = Some True"
  "tracked_objects (run (init 0) [frame_1, frame_2]) 2 = Some False"
  "tracked_objects (run (init 0) [frame_1, frame_2]) 3 = Some True"
  "tracked_objects (run (init 0) [frame_1, frame_2]) 4 = Some True"
  "in_zone_count (run (init 0) [frame_1, frame_2]) = 1"
  "out_zone_count (run (init 0) [frame_1, frame_2]) = 1"
  "current_zone_occupancy (run (init 0) [frame_1, frame_2]) = 3"
  "occupancy_history (run (init 0) [frame_1, frame_2]) = [2, 3]"
  "frame_count (run (init 0) [frame_1, frame_2]) = 2"
  "alerts_count (run (init 0) [frame_1, frame_2]) = 0"
  by (simp_all add: frame_1_def frame_2_def zone_A_def frame_eval)

lemma after_frame_1_clock: "fps_start_time (run (init 0) [frame_1]) = 0"
  by (simp add: frame_1_def zone_A_def frame_eval)

lemma empty_frames_return:
  "fps_start_time self = 0 \<Longrightarrow> frames_return self (replicate n empty_frame)"
proof (induction n arbitrary: self)
  case 0
  show ?case by simp
next
  case (Suc n)
  have "\<not> (1000000 \<le> 0 - fps_start_time self \<and> 0 = fps_start_time self)"
    using Suc.prems by simp
  then obtain self' where
    r: "process_frame self (0, 0, 0) no_raise None zone_A 10 = Inr self'"
    using process_frame_returns [of None zone_A "(100, 100, 300, 300)" no_raise 10 0 self 0 0]
      zone_A_bounds draws_without_raise
    by (auto simp add: detections_of_def no_raise_def)
  have "fps_start_time self' = 0"
    using process_frame_fps_start_time [OF r] Suc.prems by simp
  then have "frames_return self' (replicate n empty_frame)"
    by (rule Suc.IH)
  then show ?case
    by (simp add: empty_frame_def r)
qed

lemma crowd_frames:
  "frames_return (init 0) [crowd_frame, crowd_frame, crowd_frame]"
  "process_frame (init 0) (0, 0, 0) no_raise
     (Some [((190, 150, 210, 200), 1), ((240, 200, 260, 250), 2)]) zone_A 2
   = Inr (run (init 0) [crowd_frame])"
  "frame_count (run (init 0) [crowd_frame]) = 1"
  "alerts_count (run (init 0) [crowd_frame]) = 1"
  "current_zone_occupancy (run (init 0) [crowd_frame]) = 2"
  "alerts_count (run (init 0) [crowd_frame, crowd_frame, crowd_frame]) = 3"
  by (simp_all add: crowd_frame_def zone_A_def frame_eval)

lemma quiet_frame:
  "process_frame (run (init 0) [frame_1]) (40000, 40000, 40000) no_raise None zone_A 10
   = Inr (run (init 0) [frame_1, ProcessFrame (40000, 40000, 40000) no_raise None zone_A 10])"
  "current_zone_occupancy (run (init 0) [frame_1, ProcessFrame (40000, 40000, 40000) no_raise None zone_A 10]) = 0"
  "frame_count (run (init 0) [frame_1, ProcessFrame (40000, 40000, 40000) no_raise None zone_A 10]) = 2"
  "in_zone_count (run (init 0) [frame_1, ProcessFrame (40000, 40000, 40000) no_raise None zone_A 10]) = 0"
  "out_zone_count (run (init 0) [frame_1, ProcessFrame (40000, 40000, 40000) no_raise None zone_A 10]) = 0"
  "alerts_count (run (init 0) [frame_1, ProcessFrame (40000, 40000, 40000) no_raise None zone_A 10]) = 0"
  "tracked_objects (run (init 0) [frame_1, ProcessFrame (40000, 40000, 40000) no_raise None zone_A 10])
   = tracked_objects (run (init 0) [frame_1])"
  by (simp_all add: frame_1_def zone_A_def frame_eval)

lemma track_5_gone:
  "process_frame (run (init 0) [track_5_frame]) (0, 0, 0) no_raise None zone_A 10
   = Inr (run (init 0) [track_5_frame, empty_frame])"
  "tracked_objects (run (init 0) [track_5_frame]) 5 = Some True"
  "current_zone_occupancy (run (init 0) [track_5_frame]) = 1"
  "in_zone_count (run (init 0) [track_5_frame]) = 0"
  "out_zone_count (run (init 0) [track_5_frame]) = 0"
  "tracked_objects (run (init 0) [track_5_frame, empty_frame]) 5 = Some True"
  "current_zone_occupancy (run (init 0) [track_5_frame, empty_frame]) = 0"
  "in_zone_count (run (init 0) [track_5_frame, empty_frame]) = 0"
  "out_zone_count (run (init 0) [track_5_frame, empty_frame]) = 0"
  by (simp_all add: track_5_frame_def empty_frame_def zone_A_def frame_eval)

subsection \<open>Occupancy of a frame\<close>

text \<open>
  C2. When \<open>process_frame\<close> returns, the current occupancy of the object is the number of
  distinct track identities of this frame's detections whose anchor is inside the zone. The
  right-hand side mentions the zone and the detections only: stored memberships, counters
  and history play no part.
\<close>

theorem process_frame_occupancy:
  assumes "process_frame self nows ext results pts alert_threshold = Inr self'"
  shows "\<exists>z. zone_from_points pts = Inr z
           \<and> current_zone_occupancy self'
               = int (card {t. \<exists>b. (b, t) \<in> set (detections_of results) \<and> is_inside z b})"
proof -
  from assms obtain self1 z where
    z: "zone_from_points pts = Inr z" and
    self': "self' = update_statistics
               (fst (foldl (track_step z) ({}, self1) (detections_of results)))
               (snd (foldl (track_step z) ({}, self1) (detections_of results))) alert_threshold"
    by (rule process_frame_Inr)
  have "current_zone_occupancy self'
        = int (card {t. \<exists>b. (b, t) \<in> set (detections_of results) \<and> is_inside z b})"
    by (simp add: self' update_statistics_fields track_loop_occupants)
  with z show ?thesis by blast
qed

text \<open>The same frame: tracks 1, 3 and 4 are inside.\<close>

theorem process_frame_occupancy_witness:
  "process_frame (run (init 0) [frame_1]) (40000, 40000, 40000) no_raise
     (Some [((190, 150, 210, 200), 1), ((40, 10, 60, 50), 2), ((100, 60, 120, 100), 3),
            ((240, 200, 260, 250), 4)]) zone_A 10
     = Inr (run (init 0) [frame_1, frame_2])
   \<and> current_zone_occupancy (run (init 0) [frame_1, frame_2]) = 3"
  using process_frame_occupancy [OF frame_2_returns]
  by (simp add: frame_2_returns after_frame_2 del: run.simps)

subsection \<open>Membership transitions\<close>

lemma process_frame_transitions_frame:
  assumes "process_frame self nows ext (Some dets) pts alert_threshold = Inr self'"
    and "distinct (map snd dets)"
    and "(b, t) \<in> set dets"
  shows "\<exists>z. zone_from_points pts = Inr z
           \<and> tracked_objects self' t = Some (is_inside z b)
           \<and> in_zone_count self'
               = in_zone_count self
                 + (if tracked_objects self t = Some False \<and> is_inside z b then 1 else 0)
                 + int (card {u. u \<noteq> t \<and> (\<exists>c. (c, u) \<in> set dets
                                \<and> tracked_objects self u = Some False \<and> is_inside z c)})
           \<and> out_zone_count self'
               = out_zone_count self
                 + (if tracked_objects self t = Some True \<and> \<not> is_inside z b then 1 else 0)
                 + int (card {u. u \<noteq> t \<and> (\<exists>c. (c, u) \<in> set dets
                                \<and> tracked_objects self u = Some True \<and> \<not> is_inside z c)})"
proof -
  from assms(1) obtain self1 z where
    f: "fps_update self nows = Inr self1" and
    z: "zone_from_points pts = Inr z" and
    self': "self' = update_statistics
               (fst (foldl (track_step z) ({}, self1) dets))
               (snd (foldl (track_step z) ({}, self1) dets)) alert_threshold"
    by (rule process_frame_Inr [where results = "Some dets", unfolded detections_of_def, simplified])
  note f1 = fps_update_Inr [OF f]
  have m: "tracked_objects self' t = Some (is_inside z b)"
    using track_loop_tracked_present [OF assms(2,3)]
    by (simp add: self' update_statistics_fields)
  have "in_zone_count self'
      = in_zone_count self
        + int (card {u. \<exists>c. (c, u) \<in> set dets \<and> tracked_objects self u = Some False \<and> is_inside z c})"
    using track_loop_in [OF assms(2), of z "{}" self1]
      card_ids_filter [OF assms(2), of "\<lambda>c u. tracked_objects self u = Some False \<and> is_inside z c"]
    by (simp add: self' update_statistics_fields f1)
  then have i: "in_zone_count self'
      = in_zone_count self
        + (if tracked_objects self t = Some False \<and> is_inside z b then 1 else 0)
        + int (card {u. u \<noteq> t \<and> (\<exists>c. (c, u) \<in> set dets
                       \<and> tracked_objects self u = Some False \<and> is_inside z c)})"
    using card_ids_split [OF assms(2,3),
        of "\<lambda>c u. tracked_objects self u = Some False \<and> is_inside z c"]
    by simp
  have "out_zone_count self'
      = out_zone_count self
        + int (card {u. \<exists>c. (c, u) \<in> set dets \<and> tracked_objects self u = Some True \<and> \<not> is_inside z c})"
    using track_loop_out [OF assms(2), of z "{}" self1]
      card_ids_filter [OF assms(2), of "\<lambda>c u. tracked_objects self u = Some True \<and> \<not> is_inside z c"]
    by (simp add: self' update_statistics_fields f1)
  then have out: "out_zone_count self'
      = out_zone_count self
        + (if tracked_objects self t = Some True \<and> \<not> is_inside z b then 1 else 0)
        + int (card {u. u \<noteq> t \<and> (\<exists>c. (c, u) \<in> set dets
                       \<and> tracked_objects self u = Some True \<and> \<not> is_inside z c)})"
    using card_ids_split [OF assms(2,3),
        of "\<lambda>c u. tracked_objects self u = Some True \<and> \<not> is_inside z c"]
    by simp
  from z m i out show ?thesis by blast
qed

text \<open>
  C1. One iteration of the loop, for a detection of identity \<open>t\<close> with box \<open>b\<close>: when \<open>t\<close>
  was never seen before, its membership is initialised to its containment state and the
  entry and exit counts are unchanged; when it was stored outside and is inside, the
  entry count grows by exactly one and the membership becomes inside; when it was stored
  inside and is outside, the exit count grows by exactly one and the membership becomes
  outside; when the containment state is the stored one, neither count changes.

  For a whole call on a frame whose detections carry pairwise distinct identities (the
  tracker's contract): the stored membership of every detected \<open>t\<close> is afterwards its
  containment state in this frame, and \<open>t\<close> adds to the entry and exit counts what the four
  cases say; the last summand of each count is what the other identities of the frame
  add by the same rule.
\<close>

theorem process_frame_transitions:
  "(tracked_objects self t = None \<longrightarrow>
      tracked_objects (snd (track_step z (occ, self) (b, t))) t = Some (is_inside z b)
      \<and> in_zone_count (snd (track_step z (occ, self) (b, t))) = in_zone_count self
      \<and> out_zone_count (snd (track_step z (occ, self) (b, t))) = out_zone_count self)
   \<and> (tracked_objects self t = Some False \<and> is_inside z b \<longrightarrow>
      tracked_objects (snd (track_step z (occ, self) (b, t))) t = Some True
      \<and> in_zone_count (snd (track_step z (occ, self) (b, t))) = in_zone_count self + 1
      \<and> out_zone_count (snd (track_step z (occ, self) (b, t))) = out_zone_count self)
   \<and> (tracked_objects self t = Some True \<and> \<not> is_inside z b \<longrightarrow>
      tracked_objects (snd (track_step z (occ, self) (b, t))) t = Some False
      \<and> in_zone_count (snd (track_step z (occ, self) (b, t))) = in_zone_count self
      \<and> out_zone_count (snd (track_step z (occ, self) (b, t))) = out_zone_count self + 1)
   \<and> (tracked_objects self t = Some (is_inside z b) \<longrightarrow>
      tracked_objects (snd (track_step z (occ, self) (b, t))) t = Some (is_inside z b)
      \<and> in_zone_count (snd (track_step z (occ, self) (b, t))) = in_zone_count self
      \<and> out_zone_count (snd (track_step z (occ, self) (b, t))) = out_zone_count self)
   \<and> (process_frame self nows ext (Some dets) pts alert_threshold = Inr self'
       \<and> distinct (map snd dets) \<and> (b, t) \<in> set dets \<longrightarrow>
       (\<exists>z. zone_from_points pts = Inr z
           \<and> tracked_objects self' t = Some (is_inside z b)
           \<and> in_zone_count self'
               = in_zone_count self
                 + (if tracked_objects self t = Some False \<and> is_inside z b then 1 else 0)
                 + int (card {u. u \<noteq> t \<and> (\<exists>c. (c, u) \<in> set dets
                                \<and> tracked_objects self u = Some False \<and> is_inside z c)})
           \<and> out_zone_count self'
               = out_zone_count self
                 + (if tracked_objects self t = Some True \<and> \<not> is_inside z b then 1 else 0)
                 + int (card {u. u \<noteq> t \<and> (\<exists>c. (c, u) \<in> set dets
                                \<and> tracked_objects self u = Some True \<and> \<not> is_inside z c)})))"
proof (intro conjI impI)
  assume "process_frame self nows ext (Some dets) pts alert_threshold = Inr self'
       \<and> distinct (map snd dets) \<and> (b, t) \<in> set dets"
  then show "\<exists>z. zone_from_points pts = Inr z
           \<and> tracked_objects self' t = Some (is_inside z b)
           \<and> in_zone_count self'
               = in_zone_count self
                 + (if tracked_objects self t = Some False \<and> is_inside z b then 1 else 0)
                 + int (card {u. u \<noteq> t \<and> (\<exists>c. (c, u) \<in> set dets
                                \<and> tracked_objects self u = Some False \<and> is_inside z c)})
           \<and> out_zone_count self'
               = out_zone_count self
                 + (if tracked_objects self t = Some True \<and> \<not> is_inside z b then 1 else 0)
                 + int (card {u. u \<noteq> t \<and> (\<exists>c. (c, u) \<in> set dets
                                \<and> tracked_objects self u = Some True \<and> \<not> is_inside z c)})"
    using process_frame_transitions_frame [of self nows ext dets pts alert_threshold self' b t] by blast
qed (simp_all add: track_step_tracked track_step_in track_step_out)

text \<open>
  The second of two frames: track 1 was stored outside and is inside, track 2 was stored
  inside and is outside, track 3 is new and inside, track 4 stays inside. One entry and
  one exit are counted.
\<close>

theorem process_frame_transitions_witness:
  "process_frame (run (init 0) [frame_1]) (40000, 40000, 40000) no_raise
     (Some [((190, 150, 210, 200), 1), ((40, 10, 60, 50), 2), ((100, 60, 120, 100), 3),
            ((240, 200, 260, 250), 4)]) zone_A 10
     = Inr (run (init 0) [frame_1, frame_2])
   \<and> tracked_objects (run (init 0) [frame_1]) 1 = Some False
   \<and> is_inside (100, 100, 300, 300) (190, 150, 210, 200)
   \<and> in_zone_count (snd (track_step (100, 100, 300, 300) ({}, run (init 0) [frame_1])
                            ((190, 150, 210, 200), 1)))
      = in_zone_count (run (init 0) [frame_1]) + 1
   \<and> tracked_objects (run (init 0) [frame_1, frame_2]) 1 = Some True
   \<and> tracked_objects (run (init 0) [frame_1]) 2 = Some True
   \<and> \<not> is_inside (100, 100, 300, 300) (40, 10, 60, 50)
   \<and> tracked_objects (run (init 0) [frame_1, frame_2]) 2 = Some False
   \<and> tracked_objects (run (init 0) [frame_1]) 3 = None
   \<and> tracked_objects (run (init 0) [frame_1, frame_2]) 3 = Some True
   \<and> in_zone_count (run (init 0) [frame_1, frame_2]) = in_zone_count (run (init 0) [frame_1]) + 1
   \<and> out_zone_count (run (init 0) [frame_1, frame_2]) = out_zone_count (run (init 0) [frame_1]) + 1"
proof -
  let ?dets = "[((190, 150, 210, 200), 1), ((40, 10, 60, 50), 2), ((100, 60, 120, 100), 3),
            ((240, 200, 260, 250), 4)] :: detection list"
  have d: "distinct (map snd ?dets)" by simp
  have m1: "((190, 150, 210, 200), 1) \<in> set ?dets" by simp
  have inside: "is_inside (100, 100, 300, 300) (190, 150, 210, 200)"
    "\<not> is_inside (100, 100, 300, 300) (40, 10, 60, 50)"
    by (simp_all add: is_inside_def feet_boxes)
  show ?thesis
    using process_frame_transitions [where self = "run (init 0) [frame_1]" and t = 1
        and z = "(100, 100, 300, 300)" and occ = "{}" and b = "(190, 150, 210, 200)"
        and nows = "(40000, 40000, 40000)" and dets = ?dets and pts = zone_A
        and alert_threshold = 10 and self' = "run (init 0) [frame_1, frame_2]"]
      d m1 inside
    by (simp add: zone_A_bounds frame_2_returns after_frame_1 after_frame_2 del: run.simps)
qed

subsection \<open>Monotone counters\<close>

lemma apply_event_mono:
  assumes "is_frame ev"
  shows "in_zone_count self \<le> in_zone_count (apply_event self ev)
         \<and> out_zone_count self \<le> out_zone_count (apply_event self ev)"
proof -
  from assms obtain nows ext results pts thr where ev: "ev = ProcessFrame nows ext results pts thr"
    by (cases ev) simp_all
  show ?thesis
  proof (cases "process_frame self nows ext results pts thr")
    case (Inl err)
    obtain e s where err: "err = (e, s)" by (cases err)
    show ?thesis
      using process_frame_Inl [of self nows ext results pts thr e s] Inl
      by (simp add: ev err)
  next
    case (Inr self')
    then obtain self1 z where
      f: "fps_update self nows = Inr self1" and
      self': "self' = update_statistics
               (fst (foldl (track_step z) ({}, self1) (detections_of results)))
               (snd (foldl (track_step z) ({}, self1) (detections_of results))) thr"
      by (rule process_frame_Inr)
    show ?thesis
      using track_loop_mono [of "({}, self1)" z "detections_of results"] fps_update_Inr [OF f]
      by (simp add: ev Inr self' update_statistics_fields)
  qed
qed

lemma run_mono:
  "list_all is_frame evs \<Longrightarrow>
   in_zone_count self \<le> in_zone_count (run self evs)
   \<and> out_zone_count self \<le> out_zone_count (run self evs)"
proof (induction evs arbitrary: self)
  case Nil
  show ?case by simp
next
  case (Cons ev evs)
  then have "is_frame ev" "list_all is_frame evs" by simp_all
  then show ?case
    using apply_event_mono [of ev self] Cons.IH [of "apply_event self ev"] by force
qed

text \<open>
  C8. Over every sequence of \<open>process_frame\<close> calls without a reset, whether the calls
  return or raise, the entry count and the exit count at the end are at least what they
  were at the start; and so are they after each single call that returns.
\<close>

theorem entry_exit_monotone:
  assumes "list_all is_frame evs"
  shows "in_zone_count self \<le> in_zone_count (run self evs)
         \<and> out_zone_count self \<le> out_zone_count (run self evs)
         \<and> (\<forall>self'. process_frame self nows ext results pts alert_threshold = Inr self'
               \<longrightarrow> in_zone_count self \<le> in_zone_count self'
                   \<and> out_zone_count self \<le> out_zone_count self')"
proof -
  have "in_zone_count self \<le> in_zone_count self' \<and> out_zone_count self \<le> out_zone_count self'"
    if "process_frame self nows ext results pts alert_threshold = Inr self'" for self'
    using apply_event_mono [of "ProcessFrame nows ext results pts alert_threshold" self] that
    by simp
  then show ?thesis
    using run_mono [OF assms, of self] by blast
qed

text \<open>The two frames from a fresh object: both counters go from 0 to 1.\<close>

theorem entry_exit_monotone_witness:
  "list_all is_frame [frame_1, frame_2]
   \<and> in_zone_count (init 0) = 0 \<and> in_zone_count (run (init 0) [frame_1, frame_2]) = 1
   \<and> out_zone_count (init 0) = 0 \<and> out_zone_count (run (init 0) [frame_1, frame_2]) = 1
   \<and> in_zone_count (init 0) \<le> in_zone_count (run (init 0) [frame_1, frame_2])
   \<and> out_zone_count (init 0) \<le> out_zone_count (run (init 0) [frame_1, frame_2])"
proof -
  have f: "list_all is_frame [frame_1, frame_2]"
    by (simp add: frame_1_def frame_2_def)
  show ?thesis
    using entry_exit_monotone [OF f, of "init 0"] f
    by (simp add: after_frame_2 init_counts del: run.simps)
qed

subsection \<open>The rolling occupancy history\<close>

lemma process_frame_history:
  assumes "process_frame self nows ext results pts thr = Inr self'"
  shows "occupancy_history self'
         = deque_append history_length (occupancy_history self) (current_zone_occupancy self')"
proof -
  from assms obtain self1 z where
    f: "fps_update self nows = Inr self1" and
    self': "self' = update_statistics
               (fst (foldl (track_step z) ({}, self1) (detections_of results)))
               (snd (foldl (track_step z) ({}, self1) (detections_of results))) thr"
    by (rule process_frame_Inr)
  show ?thesis
    using fps_update_Inr [OF f]
    by (simp add: self' update_statistics_fields track_loop_rest)
qed

lemma deque_append_cases:
  "deque_append history_length h x = (if 100 \<le> length h then tl h @ [x] else h @ [x])"
  by (cases h) (simp_all add: deque_append_def history_length_def Let_def)

lemma apply_event_history_length:
  assumes "length (occupancy_history self) \<le> 100"
  shows "length (occupancy_history (apply_event self ev)) \<le> 100"
proof (cases ev)
  case ResetStats
  then show ?thesis by (simp add: reset_stats_def)
next
  case (ProcessFrame nows ext results pts thr)
  show ?thesis
  proof (cases "process_frame self nows ext results pts thr")
    case (Inl err)
    obtain e s where err: "err = (e, s)" by (cases err)
    show ?thesis
      using process_frame_Inl [of self nows ext results pts thr e s] Inl assms
      by (simp add: ProcessFrame err)
  next
    case (Inr self')
    show ?thesis
      using process_frame_history [OF Inr] assms
      by (simp add: ProcessFrame Inr deque_append_cases)
  qed
qed

lemma run_history_length:
  "length (occupancy_history self) \<le> 100 \<Longrightarrow> length (occupancy_history (run self evs)) \<le> 100"
  by (induction evs arbitrary: self) (simp_all add: apply_event_history_length)

lemma run_history_fifo:
  assumes "frames_return self evs" and "length (occupancy_history self) \<le> 100"
  shows "occupancy_history (run self evs)
         = drop (length (occupancy_history self) + length evs - 100)
             (occupancy_history self @ map current_zone_occupancy (snapshots self evs))"
  using assms
proof (induction evs arbitrary: self)
  case Nil
  then show ?case by simp
next
  case (Cons ev evs)
  from Cons.prems(1) obtain nows ext results pts thr where
    ev: "ev = ProcessFrame nows ext results pts thr"
    by (cases ev) simp_all
  from Cons.prems(1) obtain self' where
    r: "process_frame self nows ext results pts thr = Inr self'"
    by (auto simp add: ev split: sum.splits)
  have a: "apply_event self ev = self'"
    by (simp add: ev r)
  have h: "occupancy_history self'
      = (if 100 \<le> length (occupancy_history self)
         then tl (occupancy_history self) @ [current_zone_occupancy self']
         else occupancy_history self @ [current_zone_occupancy self'])"
    using process_frame_history [OF r] by (simp add: deque_append_cases)
  have len: "length (occupancy_history self') \<le> 100"
    using apply_event_history_length [OF Cons.prems(2), of ev] by (simp add: a)
  have fr: "frames_return self' evs"
    using Cons.prems(1) by (simp add: a)
  note IH = Cons.IH [OF fr len]
  show ?case
  proof (cases "100 \<le> length (occupancy_history self)")
    case False
    then show ?thesis
      using IH h by (simp add: a)
  next
    case True
    then have l: "length (occupancy_history self) = 100"
      using Cons.prems(2) by simp
    then obtain x xs where xs: "occupancy_history self = x # xs" "length xs = 99"
      by (cases "occupancy_history self") simp_all
    show ?thesis
      using IH h by (simp add: a xs)
  qed
qed

text \<open>
  C9. The occupancy history of an object made by \<open>__init__\<close> and then driven by any
  sequence of calls holds at most 100 values. A call that returns appends the current
  occupancy and, when the history already held 100 values, drops the oldest. After \<open>n\<close>
  calls that all return, starting with an empty history, the history is the occupancies
  of the last \<open>min n 100\<close> frames in order.
\<close>

theorem occupancy_history_bounded_fifo:
  "length (occupancy_history (run (init now) evs)) \<le> 100
   \<and> (\<forall>self'. process_frame self nows ext results pts alert_threshold = Inr self' \<longrightarrow>
         occupancy_history self'
         = (if 100 \<le> length (occupancy_history self)
            then tl (occupancy_history self) @ [current_zone_occupancy self']
            else occupancy_history self @ [current_zone_occupancy self']))
   \<and> (frames_return self evs \<and> occupancy_history self = [] \<longrightarrow>
         occupancy_history (run self evs)
           = drop (length evs - 100) (map current_zone_occupancy (snapshots self evs))
         \<and> length (occupancy_history (run self evs)) = min (length evs) 100)"
proof -
  have 1: "length (occupancy_history (run (init now) evs)) \<le> 100"
    by (rule run_history_length) (simp add: init_def)
  have 2: "occupancy_history self'
         = (if 100 \<le> length (occupancy_history self)
            then tl (occupancy_history self) @ [current_zone_occupancy self']
            else occupancy_history self @ [current_zone_occupancy self'])"
    if "process_frame self nows ext results pts alert_threshold = Inr self'" for self'
    using process_frame_history [OF that] by (simp add: deque_append_cases)
  have len_snap: "length (snapshots s es) = length es" for s es
    by (induction es arbitrary: s) simp_all
  have 3: "occupancy_history (run self evs)
           = drop (length evs - 100) (map current_zone_occupancy (snapshots self evs))
         \<and> length (occupancy_history (run self evs)) = min (length evs) 100"
    if "frames_return self evs" "occupancy_history self = []"
  proof -
    have "occupancy_history (run self evs)
           = drop (length evs - 100) (map current_zone_occupancy (snapshots self evs))"
      using run_history_fifo [of self evs] that by simp
    then show ?thesis
      by (simp add: len_snap)
  qed
  from 1 2 3 show ?thesis by blast
qed

text \<open>
  101 frames from a fresh object leave 100 values; and the second frame of the two-frame
  run appends its occupancy 3 to the history \<open>[2]\<close>.
\<close>

theorem occupancy_history_bounded_fifo_witness:
  "frames_return (init 0) (replicate 101 empty_frame)
   \<and> occupancy_history (init 0) = []
   \<and> length (occupancy_history (run (init 0) (replicate 101 empty_frame))) = 100
   \<and> process_frame (run (init 0) [frame_1]) (40000, 40000, 40000) no_raise
       (Some [((190, 150, 210, 200), 1), ((40, 10, 60, 50), 2), ((100, 60, 120, 100), 3),
              ((240, 200, 260, 250), 4)]) zone_A 10
      = Inr (run (init 0) [frame_1, frame_2])
   \<and> occupancy_history (run (init 0) [frame_1]) = [2]
   \<and> occupancy_history (run (init 0) [frame_1, frame_2]) = [2, 3]"
proof -
  have r: "frames_return (init 0) (replicate 101 empty_frame)"
    by (rule empty_frames_return) (simp add: init_def)
  show ?thesis
    using occupancy_history_bounded_fifo [where self = "init 0"
        and evs = "replicate 101 empty_frame"]
      occupancy_history_bounded_fifo [where self = "run (init 0) [frame_1]"
        and nows = "(40000, 40000, 40000)"
        and results = "Some [((190, 150, 210, 200), 1), ((40, 10, 60, 50), 2),
              ((100, 60, 120, 100), 3), ((240, 200, 260, 250), 4)]"
        and pts = zone_A and alert_threshold = 10]
      r
    by (simp add: init_counts frame_2_returns after_frame_1 after_frame_2 length_snapshots
          del: run.simps)
qed

subsection \<open>Frame counter and alert tally\<close>

lemma process_frame_counters:
  assumes "process_frame self nows ext results pts thr = Inr self'"
  shows "frame_count self' = frame_count self + 1"
    and "alerts_count self'
         = alerts_count self + (if thr \<le> current_zone_occupancy self' then 1 else 0)"
proof -
  from assms obtain self1 z where
    f: "fps_update self nows = Inr self1" and
    self': "self' = update_statistics
               (fst (foldl (track_step z) ({}, self1) (detections_of results)))
               (snd (foldl (track_step z) ({}, self1) (detections_of results))) thr"
    by (rule process_frame_Inr)
  show "frame_count self' = frame_count self + 1"
    using fps_update_Inr [OF f]
    by (simp add: self' update_statistics_fields track_loop_rest)
  show "alerts_count self'
         = alerts_count self + (if thr \<le> current_zone_occupancy self' then 1 else 0)"
    using fps_update_Inr [OF f]
    by (simp add: self' update_statistics_fields track_loop_rest)
qed

lemma process_frame_occupants:
  assumes "process_frame self nows ext results pts thr = Inr self'"
    and "zone_from_points pts = Inr z"
  shows "current_zone_occupancy self'
         = int (card {t. \<exists>b. (b, t) \<in> set (detections_of results) \<and> is_inside z b})"
proof -
  from assms(1) obtain self1 z' where
    z': "zone_from_points pts = Inr z'" and
    self': "self' = update_statistics
               (fst (foldl (track_step z') ({}, self1) (detections_of results)))
               (snd (foldl (track_step z') ({}, self1) (detections_of results))) thr"
    by (rule process_frame_Inr)
  from z' assms(2) have "z' = z" by simp
  then show ?thesis
    by (simp add: self' update_statistics_fields track_loop_occupants)
qed

lemma ids_two:
  "{t'. \<exists>b'. (b', t') \<in> set [(b, t), (c, u)] \<and> P b'}
     = (if P b then {t} else {}) \<union> (if P c then {u} else {})"
  by auto

lemma two_inside_alert:
  assumes "process_frame self nows ext (Some [(b, t), (c, u)]) pts 2 = Inr self'"
    and "zone_from_points pts = Inr z"
    and "t \<noteq> u" and "is_inside z b" and "is_inside z c"
  shows "alerts_count self' = alerts_count self + 1"
proof -
  have "{t'. \<exists>b'. (b', t') \<in> set [(b, t), (c, u)] \<and> is_inside z b'} = {t, u}"
    using assms(4,5) ids_two [of b t c u "is_inside z"] by (simp add: insert_commute)
  then have "current_zone_occupancy self' = 2"
    using process_frame_occupants [OF assms(1,2)] assms(3)
    by (simp add: detections_of_def)
  then show ?thesis
    using process_frame_counters(2) [OF assms(1)] by simp
qed

lemma process_frame_frame_count:
  "frame_count (left_behind (process_frame self nows ext results pts thr)) = frame_count self + 1"
proof (cases "process_frame self nows ext results pts thr")
  case (Inl err)
  obtain e s where err: "err = (e, s)" by (cases err)
  show ?thesis
    using process_frame_Inl(4) [of self nows ext results pts thr e s] Inl
    by (simp add: err)
next
  case (Inr self')
  then show ?thesis
    using process_frame_counters(1) [OF Inr] by simp
qed

text \<open>
  C4. Every call leaves the frame counter one higher, also a call that raises. A call
  that returns adds one to the alert count exactly when the current occupancy is at least
  the threshold, otherwise nothing. With threshold 2 and two distinct tracks inside the
  zone in each of three consecutive frames, the alert count grows by exactly three.
\<close>

theorem frame_and_alert_counters:
  "frame_count (left_behind (process_frame self nows ext results pts alert_threshold))
     = frame_count self + 1
   \<and> (\<forall>self'. process_frame self nows ext results pts alert_threshold = Inr self' \<longrightarrow>
       frame_count self' = frame_count self + 1
       \<and> alerts_count self'
           = alerts_count self + (if alert_threshold \<le> current_zone_occupancy self' then 1 else 0))
   \<and> (zone_from_points pts = Inr z \<and> t \<noteq> u
       \<and> is_inside z b1 \<and> is_inside z c1
       \<and> is_inside z b2 \<and> is_inside z c2
       \<and> is_inside z b3 \<and> is_inside z c3
       \<and> frames_return self
            [ProcessFrame nows1 ext1 (Some [(b1, t), (c1, u)]) pts 2,
             ProcessFrame nows2 ext2 (Some [(b2, t), (c2, u)]) pts 2,
             ProcessFrame nows3 ext3 (Some [(b3, t), (c3, u)]) pts 2]
       \<longrightarrow> alerts_count (run self
            [ProcessFrame nows1 ext1 (Some [(b1, t), (c1, u)]) pts 2,
             ProcessFrame nows2 ext2 (Some [(b2, t), (c2, u)]) pts 2,
             ProcessFrame nows3 ext3 (Some [(b3, t), (c3, u)]) pts 2])
           = alerts_count self + 3)"
proof (intro conjI allI impI)
  show "frame_count (left_behind (process_frame self nows ext results pts alert_threshold))
      = frame_count self + 1"
    by (rule process_frame_frame_count)
next
  fix self'
  assume r: "process_frame self nows ext results pts alert_threshold = Inr self'"
  show "frame_count self' = frame_count self + 1"
    by (rule process_frame_counters(1) [OF r])
  show "alerts_count self'
      = alerts_count self + (if alert_threshold \<le> current_zone_occupancy self' then 1 else 0)"
    by (rule process_frame_counters(2) [OF r])
next
  let ?e1 = "ProcessFrame nows1 ext1 (Some [(b1, t), (c1, u)]) pts 2"
  let ?e2 = "ProcessFrame nows2 ext2 (Some [(b2, t), (c2, u)]) pts 2"
  let ?e3 = "ProcessFrame nows3 ext3 (Some [(b3, t), (c3, u)]) pts 2"
  assume a: "zone_from_points pts = Inr z \<and> t \<noteq> u
       \<and> is_inside z b1 \<and> is_inside z c1
       \<and> is_inside z b2 \<and> is_inside z c2
       \<and> is_inside z b3 \<and> is_inside z c3
       \<and> frames_return self [?e1, ?e2, ?e3]"
  then have z: "zone_from_points pts = Inr z" and tu: "t \<noteq> u" by simp_all
  from a obtain s1 where
    r1: "process_frame self nows1 ext1 (Some [(b1, t), (c1, u)]) pts 2 = Inr s1"
    by (auto split: sum.splits)
  from a r1 obtain s2 where
    r2: "process_frame s1 nows2 ext2 (Some [(b2, t), (c2, u)]) pts 2 = Inr s2"
    by (auto split: sum.splits)
  from a r1 r2 obtain s3 where
    r3: "process_frame s2 nows3 ext3 (Some [(b3, t), (c3, u)]) pts 2 = Inr s3"
    by (auto split: sum.splits)
  have "alerts_count s1 = alerts_count self + 1"
    using two_inside_alert [OF r1 z tu] a by simp
  moreover have "alerts_count s2 = alerts_count s1 + 1"
    using two_inside_alert [OF r2 z tu] a by simp
  moreover have "alerts_count s3 = alerts_count s2 + 1"
    using two_inside_alert [OF r3 z tu] a by simp
  ultimately show "alerts_count (run self [?e1, ?e2, ?e3]) = alerts_count self + 3"
    by (simp add: r1 r2 r3)
qed

text \<open>
  Scenario C from a fresh object: tracks 1 and 2 inside the zone in three frames with
  threshold 2. Each frame is an alert frame.
\<close>

theorem frame_and_alert_counters_witness:
  "frames_return (init 0) [crowd_frame, crowd_frame, crowd_frame]
   \<and> alerts_count (run (init 0) [crowd_frame, crowd_frame, crowd_frame]) = alerts_count (init 0) + 3
   \<and> process_frame (init 0) (0, 0, 0) no_raise
        (Some [((190, 150, 210, 200), 1), ((240, 200, 260, 250), 2)]) zone_A 2
      = Inr (run (init 0) [crowd_frame])
   \<and> frame_count (run (init 0) [crowd_frame]) = frame_count (init 0) + 1
   \<and> current_zone_occupancy (run (init 0) [crowd_frame]) = 2
   \<and> alerts_count (run (init 0) [crowd_frame]) = alerts_count (init 0) + 1"
proof -
  have inside: "is_inside (100, 100, 300, 300) (190, 150, 210, 200)"
    "is_inside (100, 100, 300, 300) (240, 200, 260, 250)"
    by (simp_all add: is_inside_def feet_boxes)
  show ?thesis
    using frame_and_alert_counters [where self = "init 0" and nows = "(0, 0, 0)"
        and results = "Some [((190, 150, 210, 200), 1), ((240, 200, 260, 250), 2)]"
        and pts = zone_A and alert_threshold = 2 and z = "(100, 100, 300, 300)"
        and t = 1 and u = 2
        and ?b1.0 = "(190, 150, 210, 200)" and ?c1.0 = "(240, 200, 260, 250)"
        and ?b2.0 = "(190, 150, 210, 200)" and ?c2.0 = "(240, 200, 260, 250)"
        and ?b3.0 = "(190, 150, 210, 200)" and ?c3.0 = "(240, 200, 260, 250)"
        and ?nows1.0 = "(0, 0, 0)" and ?nows2.0 = "(0, 0, 0)" and ?nows3.0 = "(0, 0, 0)"]
      inside crowd_frames(1)
    by (simp add: zone_A_bounds crowd_frames(2-) init_counts crowd_frame_def [symmetric]
          del: run.simps frames_return.simps)
qed

subsection \<open>A frame without detections\<close>

text \<open>
  C5, as amended. With tracker output \<open>None\<close> or an empty list, well-formed corner points,
  no zero elapsed time in the FPS division, and the calls that such a frame reaches
  returning (\<open>draw_counting_zone\<close>, for which the zone corners and the label position 15
  below the zone must fit a C \<open>int\<close>; the tracker; \<open>create_dashboard\<close>; and the alert's
  \<open>cv2.putText\<close> when the threshold is 0 or negative), \<open>process_frame\<close> returns; the
  occupancy is 0, the frame counter grows by one, the entry count, the exit count and
  every stored membership are unchanged; the alert count is unchanged when the threshold
  is at least 1 and grows by one when the threshold is 0 or negative.
\<close>

theorem empty_detections_frame:
  assumes "results = None \<or> results = Some []"
    and "zone_from_points pts = Inr z"
    and "draw_counting_zone ext z = None"
    and "\<not> track_raises ext"
    and "\<not> create_dashboard_raises ext"
    and "alert_threshold \<le> 0 \<longrightarrow> \<not> putText_raises ext"
    and "\<not> (1000000 \<le> now1 - fps_start_time self \<and> now2 = fps_start_time self)"
  shows "\<exists>self'. process_frame self (now1, now2, now3) ext results pts alert_threshold = Inr self'
           \<and> current_zone_occupancy self' = 0
           \<and> frame_count self' = frame_count self + 1
           \<and> in_zone_count self' = in_zone_count self
           \<and> out_zone_count self' = out_zone_count self
           \<and> tracked_objects self' = tracked_objects self
           \<and> alerts_count self' = alerts_count self + (if alert_threshold \<le> 0 then 1 else 0)"
proof -
  have d: "detections_of results = []"
    using assms(1) by (auto simp add: detections_of_def)
  from d assms(2-7) obtain self' where
    r: "process_frame self (now1, now2, now3) ext results pts alert_threshold = Inr self'"
    by (rule process_frame_returns)
  from r obtain self1 z' where
    f: "fps_update self (now1, now2, now3) = Inr self1" and
    self': "self' = update_statistics
               (fst (foldl (track_step z') ({}, self1) (detections_of results)))
               (snd (foldl (track_step z') ({}, self1) (detections_of results))) alert_threshold"
    by (rule process_frame_Inr)
  have "current_zone_occupancy self' = 0"
    and "in_zone_count self' = in_zone_count self"
    and "out_zone_count self' = out_zone_count self"
    and "tracked_objects self' = tracked_objects self"
    using fps_update_Inr [OF f] by (simp_all add: self' d update_statistics_fields)
  then show ?thesis
    using r process_frame_counters [OF r] by simp
qed

text \<open>
  The claim as the spec states it, with the alert count unchanged for every threshold,
  fails at threshold 0: a fresh object, a frame without detections, and the alert count
  goes from 0 to 1, since \<open>0 >= 0\<close>.
\<close>

theorem empty_frame_alert_counterexample:
  "process_frame (init 0) (0, 0, 0) no_raise None zone_A 0
     = Inr \<lparr> occupancy_history = [0], in_history = [], out_history = [],
             in_zone_count = 0, out_zone_count = 0, current_zone_occupancy = 0,
             alerts_count = 1, frame_count = 1, tracked_objects = Map.empty,
             fps_start_time = 0, fps_frame_count = 1, current_fps = 0 \<rparr>
   \<and> alerts_count (init 0) = 0"
  by (simp add: zone_A_def frame_eval)

text \<open>With threshold 10, after a frame that stored three memberships.\<close>

theorem empty_detections_frame_witness:
  "process_frame (run (init 0) [frame_1]) (40000, 40000, 40000) no_raise None zone_A 10
     = Inr (run (init 0) [frame_1, ProcessFrame (40000, 40000, 40000) no_raise None zone_A 10])
   \<and> current_zone_occupancy
        (run (init 0) [frame_1, ProcessFrame (40000, 40000, 40000) no_raise None zone_A 10]) = 0
   \<and> alerts_count (run (init 0) [frame_1, ProcessFrame (40000, 40000, 40000) no_raise None zone_A 10])
      = alerts_count (run (init 0) [frame_1])
   \<and> tracked_objects (run (init 0) [frame_1, ProcessFrame (40000, 40000, 40000) no_raise None zone_A 10])
      = tracked_objects (run (init 0) [frame_1])"
proof -
  have c: "\<not> (1000000 \<le> 40000 - fps_start_time (run (init 0) [frame_1])
             \<and> 40000 = fps_start_time (run (init 0) [frame_1]))"
    by (simp add: after_frame_1_clock del: run.simps)
  have n: "(None :: detection list option) = None \<or> (None :: detection list option) = Some []"
    by simp
  have e: "\<not> track_raises no_raise" "\<not> create_dashboard_raises no_raise"
    "(10::int) \<le> 0 \<longrightarrow> \<not> putText_raises no_raise"
    by (simp_all add: no_raise_def)
  show ?thesis
    using empty_detections_frame [where results = None and pts = zone_A
        and z = "(100, 100, 300, 300)" and ext = no_raise and alert_threshold = 10
        and ?now1.0 = 40000 and ?now2.0 = 40000 and ?now3.0 = 40000
        and self = "run (init 0) [frame_1]", OF n zone_A_bounds draws_without_raise e c]
    by (simp add: quiet_frame del: run.simps)
qed

text \<open>
  A zone corner beyond the range of a C \<open>int\<close>: \<open>draw_counting_zone\<close> raises, after the
  frame was counted, and the call does not return.
\<close>

lemma corner_beyond_int_raises:
  "process_frame (init 0) (0, 0, 0) no_raise None [[0, 0], [2147483648, 100]] 10
     = Inl (Cv2Error, (init 0)\<lparr>frame_count := 1, fps_frame_count := 1\<rparr>)"
  by (simp add: frame_eval)

subsection \<open>Identities absent from a frame\<close>

lemma track_step_absent:
  assumes "u \<noteq> t"
  shows "track_step z (occ, self\<lparr>tracked_objects := (tracked_objects self)(t := v)\<rparr>) (b, u)
         = (fst (track_step z (occ, self) (b, u)),
            (snd (track_step z (occ, self) (b, u)))
              \<lparr>tracked_objects := (tracked_objects (snd (track_step z (occ, self) (b, u))))(t := v)\<rparr>)"
  using assms
  by (simp add: track_step_def Let_def fun_upd_twist split: option.split)

lemma track_loop_absent:
  assumes "t \<notin> snd ` set dets"
  shows "foldl (track_step z) (occ, self\<lparr>tracked_objects := (tracked_objects self)(t := v)\<rparr>) dets
         = (fst (foldl (track_step z) (occ, self) dets),
            (snd (foldl (track_step z) (occ, self) dets))
              \<lparr>tracked_objects := (tracked_objects (snd (foldl (track_step z) (occ, self) dets)))(t := v)\<rparr>)"
  using assms
proof (induction dets arbitrary: occ self)
  case Nil
  show ?case by simp
next
  case (Cons det dets)
  obtain b u where det: "det = (b, u)" by (cases det)
  obtain occ1 self1 where st1: "track_step z (occ, self) (b, u) = (occ1, self1)"
    by (cases "track_step z (occ, self) (b, u)")
  have "u \<noteq> t" and rest: "t \<notin> snd ` set dets"
    using Cons.prems det by auto
  then have step: "track_step z (occ, self\<lparr>tracked_objects := (tracked_objects self)(t := v)\<rparr>) (b, u)
      = (occ1, self1\<lparr>tracked_objects := (tracked_objects self1)(t := v)\<rparr>)"
    using track_step_absent [of u t z occ self v b] st1 by simp
  have loop: "foldl (track_step z) (occ, self) (det # dets) = foldl (track_step z) (occ1, self1) dets"
    by (simp only: det foldl.simps st1)
  have "foldl (track_step z) (occ, self\<lparr>tracked_objects := (tracked_objects self)(t := v)\<rparr>) (det # dets)
      = foldl (track_step z) (occ1, self1\<lparr>tracked_objects := (tracked_objects self1)(t := v)\<rparr>) dets"
    by (simp only: det foldl.simps step)
  also have "\<dots> = (fst (foldl (track_step z) (occ1, self1) dets),
            (snd (foldl (track_step z) (occ1, self1) dets))
              \<lparr>tracked_objects := (tracked_objects (snd (foldl (track_step z) (occ1, self1) dets)))(t := v)\<rparr>)"
    by (rule Cons.IH [OF rest])
  finally show ?case
    by (simp only: loop)
qed

lemma track_loop_dom:
  "dom (tracked_objects (snd (foldl (track_step z) (occ, self) dets)))
   = dom (tracked_objects self) \<union> snd ` set dets"
proof (induction dets arbitrary: occ self)
  case Nil
  show ?case by simp
next
  case (Cons det dets)
  obtain b u where det: "det = (b, u)" by (cases det)
  obtain occ1 self1 where st1: "track_step z (occ, self) (b, u) = (occ1, self1)"
    by (cases "track_step z (occ, self) (b, u)")
  have "tracked_objects self1 = (tracked_objects self)(u \<mapsto> is_inside z b)"
    using track_step_tracked [of z occ self b u] st1 by simp
  then have "dom (tracked_objects self1) = insert u (dom (tracked_objects self))"
    by simp
  moreover have "dom (tracked_objects (snd (foldl (track_step z) (occ1, self1) dets)))
      = dom (tracked_objects self1) \<union> snd ` set dets"
    by (rule Cons.IH)
  ultimately show ?case
    by (simp add: det st1)
qed

lemma fps_update_tracked:
  assumes "fps_update self nows = Inr self1"
  shows "fps_update (self\<lparr>tracked_objects := m\<rparr>) nows = Inr (self1\<lparr>tracked_objects := m\<rparr>)"
  using assms
  by (auto simp add: fps_update_def Let_def split: prod.splits if_splits)

lemma update_statistics_tracked:
  "update_statistics occ (self\<lparr>tracked_objects := m\<rparr>) thr
   = (update_statistics occ self thr)\<lparr>tracked_objects := m\<rparr>"
  by (simp add: update_statistics_def Let_def)

lemma process_frame_absent:
  assumes "process_frame self nows ext results pts thr = Inr self'"
    and "t \<notin> snd ` set (detections_of results)"
  shows "process_frame (self\<lparr>tracked_objects := (tracked_objects self)(t := v)\<rparr>) nows ext results pts thr
         = Inr (self'\<lparr>tracked_objects := (tracked_objects self')(t := v)\<rparr>)"
proof -
  from assms(1) [unfolded process_frame_Inr_iff] obtain self1 z where
    f: "fps_update self nows = Inr self1" and
    z: "zone_from_points pts = Inr z" and
    dz: "draw_counting_zone ext z = None" and
    tk: "\<not> track_raises ext" and
    feet_ok: "\<forall>d \<in> set (detections_of results). \<exists>a. feet (fst d) = Inr a" and
    dd: "detections_of results \<noteq> [] \<longrightarrow> \<not> draw_detections_raises ext" and
    cd: "\<not> create_dashboard_raises ext" and
    pt: "thr \<le> current_zone_occupancy self' \<longrightarrow> \<not> putText_raises ext" and
    self': "self' = update_statistics
               (fst (foldl (track_step z) ({}, self1) (detections_of results)))
               (snd (foldl (track_step z) ({}, self1) (detections_of results))) thr"
    by blast
  let ?s1 = "self1\<lparr>tracked_objects := (tracked_objects self1)(t := v)\<rparr>"
  let ?s' = "self'\<lparr>tracked_objects := (tracked_objects self')(t := v)\<rparr>"
  have tr: "tracked_objects self1 = tracked_objects self"
    by (rule fps_update_Inr(5) [OF f])
  have f': "fps_update (self\<lparr>tracked_objects := (tracked_objects self)(t := v)\<rparr>) nows = Inr ?s1"
    using fps_update_tracked [OF f, of "(tracked_objects self)(t := v)"] by (simp add: tr)
  have loop: "foldl (track_step z) ({}, ?s1) (detections_of results)
      = (fst (foldl (track_step z) ({}, self1) (detections_of results)),
         (snd (foldl (track_step z) ({}, self1) (detections_of results)))
           \<lparr>tracked_objects :=
              (tracked_objects (snd (foldl (track_step z) ({}, self1) (detections_of results))))(t := v)\<rparr>)"
    by (rule track_loop_absent [OF assms(2)])
  have eq: "?s' = update_statistics
               (fst (foldl (track_step z) ({}, ?s1) (detections_of results)))
               (snd (foldl (track_step z) ({}, ?s1) (detections_of results))) thr"
    by (simp add: loop self' update_statistics_tracked update_statistics_fields)
  have pt': "thr \<le> current_zone_occupancy ?s' \<longrightarrow> \<not> putText_raises ext"
    using pt by simp
  show ?thesis
    unfolding process_frame_Inr_iff
    using f' z dz tk feet_ok dd cd pt' eq by blast
qed

text \<open>
  C6. For an identity \<open>t\<close> that is not among the detections of a frame: its stored
  membership is after the call what it was before, and no membership entry is deleted;
  the occupancy counts identities other than \<open>t\<close> only; the call on an object that differs
  in the stored membership of \<open>t\<close> alone (any value, or none) returns the same object up
  to that entry, so no counter depends on it; and a frame without any detection has
  occupancy 0 and leaves the entry and exit counts as they were.
\<close>

theorem absent_identity_untouched:
  assumes "process_frame self nows ext results pts alert_threshold = Inr self'"
    and "t \<notin> snd ` set (detections_of results)"
  shows "tracked_objects self' t = tracked_objects self t
         \<and> dom (tracked_objects self) \<subseteq> dom (tracked_objects self')
         \<and> (\<exists>z. zone_from_points pts = Inr z
              \<and> current_zone_occupancy self'
                  = int (card {u. u \<noteq> t \<and> (\<exists>b. (b, u) \<in> set (detections_of results)
                                               \<and> is_inside z b)}))
         \<and> (\<forall>v. process_frame (self\<lparr>tracked_objects := (tracked_objects self)(t := v)\<rparr>)
                    nows ext results pts alert_threshold
                  = Inr (self'\<lparr>tracked_objects := (tracked_objects self')(t := v)\<rparr>))
         \<and> (detections_of results = [] \<longrightarrow>
               current_zone_occupancy self' = 0
               \<and> in_zone_count self' = in_zone_count self
               \<and> out_zone_count self' = out_zone_count self)"
proof -
  from assms(1) obtain self1 z where
    f: "fps_update self nows = Inr self1" and
    z: "zone_from_points pts = Inr z" and
    self': "self' = update_statistics
               (fst (foldl (track_step z) ({}, self1) (detections_of results)))
               (snd (foldl (track_step z) ({}, self1) (detections_of results))) alert_threshold"
    by (rule process_frame_Inr)
  note f1 = fps_update_Inr [OF f]
  have 1: "tracked_objects self' t = tracked_objects self t"
    using track_loop_tracked_absent [OF assms(2), of z "{}" self1]
    by (simp add: self' update_statistics_fields f1)
  have 2: "dom (tracked_objects self) \<subseteq> dom (tracked_objects self')"
    using track_loop_dom [of z "{}" self1 "detections_of results"]
    by (simp add: self' update_statistics_fields f1)
  have "{u. \<exists>b. (b, u) \<in> set (detections_of results) \<and> is_inside z b}
      = {u. u \<noteq> t \<and> (\<exists>b. (b, u) \<in> set (detections_of results) \<and> is_inside z b)}"
    using assms(2) by force
  then have 3: "current_zone_occupancy self'
      = int (card {u. u \<noteq> t \<and> (\<exists>b. (b, u) \<in> set (detections_of results) \<and> is_inside z b)})"
    using process_frame_occupants [OF assms(1) z] by simp
  have 4: "process_frame (self\<lparr>tracked_objects := (tracked_objects self)(t := v)\<rparr>)
             nows ext results pts alert_threshold
           = Inr (self'\<lparr>tracked_objects := (tracked_objects self')(t := v)\<rparr>)" for v
    by (rule process_frame_absent [OF assms])
  have 5: "current_zone_occupancy self' = 0
           \<and> in_zone_count self' = in_zone_count self
           \<and> out_zone_count self' = out_zone_count self"
    if "detections_of results = []"
    by (simp add: self' that update_statistics_fields f1)
  from 1 2 z 3 4 5 show ?thesis by blast
qed

text \<open>
  Scenario B: track 5 is first seen inside, then the tracker reports nothing. The
  occupancy falls to 0, no exit is counted and the membership of track 5 stays inside.
\<close>

theorem absent_identity_untouched_witness:
  "process_frame (run (init 0) [track_5_frame]) (0, 0, 0) no_raise None zone_A 10
     = Inr (run (init 0) [track_5_frame, empty_frame])
   \<and> current_zone_occupancy (run (init 0) [track_5_frame]) = 1
   \<and> tracked_objects (run (init 0) [track_5_frame]) 5 = Some True
   \<and> tracked_objects (run (init 0) [track_5_frame, empty_frame]) 5 = Some True
   \<and> current_zone_occupancy (run (init 0) [track_5_frame, empty_frame]) = 0
   \<and> in_zone_count (run (init 0) [track_5_frame, empty_frame])
      = in_zone_count (run (init 0) [track_5_frame])
   \<and> out_zone_count (run (init 0) [track_5_frame, empty_frame])
      = out_zone_count (run (init 0) [track_5_frame])"
proof -
  have a: "5 \<notin> snd ` set (detections_of (None :: detection list option))"
    by (simp add: detections_of_def)
  show ?thesis
    using absent_identity_untouched [OF track_5_gone(1) a]
    by (simp add: track_5_gone detections_of_def del: run.simps)
qed

subsection \<open>\<open>reset_stats\<close>\<close>

text \<open>
  C7. \<open>reset_stats\<close> sets the entry count, exit count, current occupancy, alert-frame
  count and frame counter to zero and empties the membership map and the occupancy
  history (and the two other histories), from any state; resetting twice is resetting
  once.
\<close>

theorem reset_stats_clears_and_idempotent:
  "in_zone_count (reset_stats self) = 0
   \<and> out_zone_count (reset_stats self) = 0
   \<and> current_zone_occupancy (reset_stats self) = 0
   \<and> alerts_count (reset_stats self) = 0
   \<and> frame_count (reset_stats self) = 0
   \<and> tracked_objects (reset_stats self) = Map.empty
   \<and> occupancy_history (reset_stats self) = []
   \<and> in_history (reset_stats self) = []
   \<and> out_history (reset_stats self) = []
   \<and> reset_stats (reset_stats self) = reset_stats self"
  by (simp add: reset_stats_def)

text \<open>
  C10. \<open>reset_stats\<close> keeps the FPS estimator: window start, window frame count and
  last computed value are the ones before the reset. The object after the reset is the
  object before it with the counters, the membership map and the three histories
  replaced, and nothing else.
\<close>

theorem reset_stats_keeps_fps:
  "fps_start_time (reset_stats self) = fps_start_time self
   \<and> fps_frame_count (reset_stats self) = fps_frame_count self
   \<and> current_fps (reset_stats self) = current_fps self
   \<and> reset_stats self =
       \<lparr> occupancy_history = [], in_history = [], out_history = [],
         in_zone_count = 0, out_zone_count = 0, current_zone_occupancy = 0,
         alerts_count = 0, frame_count = 0, tracked_objects = Map.empty,
         fps_start_time = fps_start_time self, fps_frame_count = fps_frame_count self,
         current_fps = current_fps self \<rparr>"
  by (cases self) (simp add: reset_stats_def)

end
